theory Spec2Isabelle
  imports Complex_Main "HOL-Library.Sublist"
begin

chapter \<open>The depends / tree-sitter visualizer: conversion script and graph viewer\<close>

text \<open>
  The repository has two programs. The conversion script (the command-line tool) rewrites
  the DOT file of the dependency analyser (\<open>convertDotIds\<close>) and serialises syntax trees
  (\<open>treeToDot\<close>, \<open>nodeToDot\<close>). The viewer (\<open>App.tsx\<close>) parses DOT text
  (\<open>parseDotToElements\<close> and the quoted-edge branch of \<open>init\<close>), lays the nodes out on a
  circle (\<open>buildCytoscapeElements\<close>) and fetches the tree of a tapped node
  (\<open>fetchDotForNode\<close>).

  Strings are lists of \<open>char\<close>, read as code units below 256. Regular expressions are
  modelled by hand-written matchers; next to each one stands the argument why the
  backtracking search of the engine finds exactly the match the matcher computes.
\<close>

section \<open>Characters and character classes\<close>

definition DQ :: char where
  "DQ = CHR 0x22"

definition BSL :: char where
  "BSL = CHR 0x5C"

definition SQ :: char where
  "SQ = CHR 0x27"

definition NL :: char where
  "NL = CHR 0x0A"

definition CR :: char where
  "CR = CHR 0x0D"

text \<open>\<open>\d\<close> is \<open>[0-9]\<close>.\<close>

definition is_digit :: "char \<Rightarrow> bool" where
  "is_digit c = (let n = (of_char c :: nat) in 48 \<le> n \<and> n \<le> 57)"

text \<open>
  \<open>\s\<close> below 256: tab, line feed, vertical tab, form feed, carriage return, space and
  the no-break space.
\<close>

definition is_space :: "char \<Rightarrow> bool" where
  "is_space c = (c \<in> set [CHR 0x09, CHR 0x0A, CHR 0x0B, CHR 0x0C, CHR 0x0D, CHR 0x20, CHR 0xA0])"

text \<open>
  Line terminators below 256: line feed and carriage return. The dot of a regular
  expression matches every other character; \<open>^\<close> and \<open>$\<close> under the \<open>m\<close> flag look for
  them. The class \<open>[\r\n]\<close> is the same set.
\<close>

definition is_lt :: "char \<Rightarrow> bool" where
  "is_lt c = (c = NL \<or> c = CR)"

text \<open>\<open>[A-Za-z0-9_]\<close>.\<close>

definition is_idch :: "char \<Rightarrow> bool" where
  "is_idch c = (let n = (of_char c :: nat) in
     (65 \<le> n \<and> n \<le> 90) \<or> (97 \<le> n \<and> n \<le> 122) \<or> (48 \<le> n \<and> n \<le> 57) \<or> n = 95)"

section \<open>Numbers to text, joining\<close>

definition digit_char :: "nat \<Rightarrow> char" where
  "digit_char d = ''0123456789'' ! d"

text \<open>The decimal text of a counter, as a template literal prints it.\<close>

function dec :: "nat \<Rightarrow> string" where
  "dec n = (if n < 10 then [digit_char n] else dec (n div 10) @ [digit_char (n mod 10)])"
  by pat_completeness auto
termination
  by (relation "measure id") auto

declare dec.simps [simp del]

text \<open>\<open>Array.prototype.join\<close>.\<close>

fun js_join :: "string \<Rightarrow> string list \<Rightarrow> string" where
  "js_join sep [] = []"
| "js_join sep [x] = x"
| "js_join sep (x # y # ys) = x @ sep @ js_join sep (y # ys)"

section \<open>Errors\<close>

text \<open>A thrown value: an \<open>Error\<close> object with its name and message.\<close>

datatype js_error = JsError (err_name: string) (err_message: string)

text \<open>\<open>String(err)\<close> for an error object.\<close>

definition error_to_string :: "js_error \<Rightarrow> string" where
  "error_to_string e =
     (if err_message e = [] then err_name e
      else if err_name e = [] then err_message e
      else err_name e @ '': '' @ err_message e)"

section \<open>The viewer: fetching the tree of a node (\<open>fetchDotForNode\<close>)\<close>

text \<open>\<open>.replace(/%2F/g, "__")\<close>: every occurrence of the three characters, left to right.\<close>

fun replace_2F :: "string \<Rightarrow> string" where
  "replace_2F [] = []"
| "replace_2F (c # s) =
     (if c = CHR ''%'' \<and> take 2 s = ''2F'' then ''__'' @ replace_2F (drop 2 s)
      else c # replace_2F s)"

text \<open>
  The candidate list. \<open>encodeURIComponent\<close> is a built-in of the language and is a
  parameter here.
\<close>

definition candidates :: "(string \<Rightarrow> string) \<Rightarrow> string \<Rightarrow> string list" where
  "candidates enc nodeId =
     [ ''/dot/'' @ enc nodeId @ ''.tree.dot'',
       ''/dot/'' @ enc nodeId @ ''.dot'',
       ''/dot/'' @ enc nodeId @ ''.tree.dot.txt'',
       ''/'' @ enc nodeId @ ''.tree.dot'',
       ''/'' @ enc nodeId @ ''.dot'',
       ''/dot/'' @ enc nodeId @ ''.tree.dot'',
       replace_2F (''/dot/'' @ enc nodeId @ ''.tree.dot'') ]"

text \<open>
  What one \<open>fetch\<close> of a location gives: the call rejects, or it resolves to a response
  with its \<open>ok\<close> flag, its status and its body (\<open>None\<close> when reading the body rejects).
\<close>

datatype fetch_outcome = FetchRejects | Response (resp_ok: bool) (resp_status: nat) (resp_text: "string option")

definition retrieved :: "fetch_outcome \<Rightarrow> string option" where
  "retrieved r = (case r of FetchRejects \<Rightarrow> None
                  | Response ok st body \<Rightarrow> (if ok then body else None))"

text \<open>
  The loop over the candidates. \<open>tried\<close> is the list of the locations requested so far; a
  location already in it is skipped. The result pairs the requests made with what was
  found.
\<close>

fun tryCandidates :: "(string \<Rightarrow> fetch_outcome) \<Rightarrow> string list \<Rightarrow> string list \<Rightarrow>
    string list \<times> (string \<times> string) option" where
  "tryCandidates fetch [] tried = (tried, None)"
| "tryCandidates fetch (url # urls) tried =
     (if url \<in> set tried then tryCandidates fetch urls tried
      else (case retrieved (fetch url) of
              Some text \<Rightarrow> (tried @ [url], Some (url, text))
            | None \<Rightarrow> tryCandidates fetch urls (tried @ [url])))"

definition not_found_message :: "string \<Rightarrow> string list \<Rightarrow> string" where
  "not_found_message nodeId tried =
     ''No DOT file found for '' @ [DQ] @ nodeId @ [DQ] @ ''. Tried: '' @ js_join '', '' tried
     @ ''. Put the file in public/dot/ or ensure your server exposes /dot/ path.''"

text \<open>
  \<open>fetchDotForNode\<close>: the requests it made, and the value it resolves to (\<open>Inr\<close>) or the
  error it rejects with (\<open>Inl\<close>).
\<close>

definition fetchDotForNode :: "(string \<Rightarrow> string) \<Rightarrow> (string \<Rightarrow> fetch_outcome) \<Rightarrow> string \<Rightarrow>
    string list \<times> (js_error + string \<times> string)" where
  "fetchDotForNode enc fetch nodeId =
     (case tryCandidates fetch (candidates enc nodeId) [] of
        (tried, Some found) \<Rightarrow> (tried, Inr found)
      | (tried, None) \<Rightarrow> (tried, Inl (JsError ''Error'' (not_found_message nodeId tried))))"

text \<open>
  The list with every later repetition of an element removed: what is left of the
  candidates when a location is dropped only for being equal, as a string, to an earlier
  one.
\<close>

function first_occurrences :: "'a list \<Rightarrow> 'a list" where
  "first_occurrences [] = []"
| "first_occurrences (x # xs) = x # first_occurrences (filter (\<lambda>y. y \<noteq> x) xs)"
  by pat_completeness auto
termination
  by (relation "measure length") (auto simp: less_Suc_eq_le)

text \<open>
  \<open>encodeURIComponent\<close> on code units below 256, after the language standard: letters,
  digits and \<open>-_.!~*'()\<close> stay; any other unit is written as the bytes of its UTF-8
  form, each as \<open>%\<close> and two upper-case hexadecimal digits.
\<close>

definition hex_digit :: "nat \<Rightarrow> char" where
  "hex_digit d = ''0123456789ABCDEF'' ! d"

definition percent_byte :: "nat \<Rightarrow> string" where
  "percent_byte b = [CHR ''%'', hex_digit (b div 16), hex_digit (b mod 16)]"

definition uri_unreserved :: "char \<Rightarrow> bool" where
  "uri_unreserved c = (is_idch c \<or> c \<in> set ''-.!~*()'' \<or> c = CHR 0x27)"

definition encode_unit :: "char \<Rightarrow> string" where
  "encode_unit c =
     (let n = (of_char c :: nat) in
      if uri_unreserved c then [c]
      else if n < 128 then percent_byte n
      else percent_byte (192 + n div 64) @ percent_byte (128 + n mod 64))"

definition encodeURIComponent :: "string \<Rightarrow> string" where
  "encodeURIComponent s = concat (map encode_unit s)"

section \<open>The viewer: the overlay state and the tap handler\<close>

record popup =
  popupDot :: "string option"
  popupTitle :: "string option"
  popupError :: "string option"

text \<open>The tap handler up to its \<open>await\<close>: what the state is while the fetch runs.\<close>

definition tap_begin :: "string \<Rightarrow> popup \<Rightarrow> popup" where
  "tap_begin nodeId st = st\<lparr>popupError := None, popupTitle := Some nodeId\<rparr>"

text \<open>\<open>err.message || String(err)\<close>.\<close>

definition error_text :: "js_error \<Rightarrow> string" where
  "error_text e = (if err_message e \<noteq> [] then err_message e else error_to_string e)"

text \<open>The rest of the handler, once \<open>fetchDotForNode\<close> has settled.\<close>

definition tap_settle :: "js_error + string \<times> string \<Rightarrow> popup \<Rightarrow> popup" where
  "tap_settle result st =
     (case result of
        Inr (url, text) \<Rightarrow> st\<lparr>popupDot := Some text\<rparr>
      | Inl err \<Rightarrow> st\<lparr>popupError := Some (error_text err), popupDot := None\<rparr>)"

definition tap :: "(string \<Rightarrow> string) \<Rightarrow> (string \<Rightarrow> fetch_outcome) \<Rightarrow> string \<Rightarrow> popup \<Rightarrow> popup" where
  "tap enc fetch nodeId st = tap_settle (snd (fetchDotForNode enc fetch nodeId)) (tap_begin nodeId st)"

text \<open>The close button and the click on the backdrop.\<close>

definition dismiss :: "popup \<Rightarrow> popup" where
  "dismiss st = st\<lparr>popupDot := None, popupError := None, popupTitle := None\<rparr>"

section \<open>The conversion script: paths\<close>

text \<open>
  \<open>path.basename\<close> with one argument, after the POSIX implementation of the runtime
  library: trailing slashes are dropped, then everything up to the last slash.
  The functions of the script take the basename function as a parameter \<open>bn\<close>; this is
  the one the examples use.
\<close>

definition posix_basename :: "string \<Rightarrow> string" where
  "posix_basename path =
     rev (takeWhile (\<lambda>c. c \<noteq> CHR ''/'') (dropWhile (\<lambda>c. c = CHR ''/'') (rev path)))"

section \<open>The conversion script: the side JSON file (step 6 of \<open>convertDotIds\<close>)\<close>

text \<open>
  The record set of the side file: \<open>variables\<close>, \<open>cells\<close>, and whatever other fields the
  object has (the record's extension, which the spread \<open>...parsed\<close> carries over). A cell
  has \<open>src\<close>, \<open>dest\<close> and \<open>values\<close> (the field \<open>cell_values\<close> here); in the input \<open>src\<close> and
  \<open>dest\<close> are numbers, in the
  output they are whatever \<open>newVariables[cell.src]\<close> gives.
\<close>

datatype js_value = JUndefined | JNumber int | JString string

record ('i, 'v) cell =
  src :: "'i"
  dest :: "'i"
  cell_values :: "'v"

record ('i, 'v) cell_record =
  variables :: "string list"
  cells :: "('i, 'v) cell list"

text \<open>Reading an array of strings at a number: the element, or \<open>undefined\<close> out of range.\<close>

definition js_index :: "string list \<Rightarrow> int \<Rightarrow> js_value" where
  "js_index xs k = (if 0 \<le> k \<and> k < int (length xs) then JString (xs ! nat k) else JUndefined)"

definition convertJson :: "(string \<Rightarrow> string) \<Rightarrow> (int, 'v, 'm) cell_record_scheme \<Rightarrow>
    (js_value, 'v, 'm) cell_record_scheme" where
  "convertJson bn parsed =
     (let newVariables = map bn (variables parsed);
          newCells = map (\<lambda>cell. \<lparr> src = js_index newVariables (src cell),
                                   dest = js_index newVariables (dest cell),
                                   cell_values = cell_values cell \<rparr>) (cells parsed)
      in \<lparr> variables = newVariables, cells = newCells, \<dots> = cell_record.more parsed \<rparr>)"

section \<open>The conversion script: syntax trees to DOT (\<open>treeToDot\<close>, \<open>nodeToDot\<close>)\<close>

text \<open>A node of the syntax tree, as far as the serialisers read it: its type and its children.\<close>

datatype tsnode = TSNode (node_type: string) (children: "tsnode list")

text \<open>The two kinds of line: \<open>id [label="type"];\<close> and \<open>from -> to;\<close>.\<close>

definition label_line :: "string \<Rightarrow> string \<Rightarrow> string" where
  "label_line ident ty = ident @ '' [label='' @ [DQ] @ ty @ [DQ] @ ''];''"

definition edge_line :: "string \<Rightarrow> string \<Rightarrow> string" where
  "edge_line a b = a @ '' -> '' @ b @ '';''"

text \<open>
  \<open>addNode\<close> inside \<open>treeToDot\<close>. The state is the counter \<open>idCounter\<close> and the array
  \<open>lines\<close>; the result is the id of the node and the new state. \<open>addChildren\<close> is the
  \<open>for\<close> loop over the children.
\<close>

fun addNode :: "tsnode \<Rightarrow> nat \<times> string list \<Rightarrow> string \<times> (nat \<times> string list)"
  and addChildren :: "string \<Rightarrow> tsnode list \<Rightarrow> nat \<times> string list \<Rightarrow> nat \<times> string list" where
  "addNode (TSNode ty cs) (idCounter, lines) =
     (let nodeId = ''n'' @ dec idCounter
      in (nodeId, addChildren nodeId cs (idCounter + 1, lines @ [label_line nodeId ty])))"
| "addChildren nodeId [] st = st"
| "addChildren nodeId (child # rest) st =
     (case addNode child st of
        (childId, (idCounter, lines)) \<Rightarrow>
          addChildren nodeId rest (idCounter, lines @ [edge_line nodeId childId]))"

definition treeToDot_lines :: "tsnode \<Rightarrow> string list" where
  "treeToDot_lines rootNode = snd (snd (addNode rootNode (0, [''digraph G {'']))) @ [''}'']"

definition treeToDot :: "tsnode \<Rightarrow> string" where
  "treeToDot rootNode = js_join [NL] (treeToDot_lines rootNode)"

text \<open>
  \<open>nodeToDot\<close> inside \<open>parseFileWithTreeSitter\<close>: numeric ids, the edge from the parent
  written right after the node, \<open>-1\<close> for no parent. The state is \<open>nextId.value\<close> and
  \<open>lines\<close>.
\<close>

definition show_int :: "int \<Rightarrow> string" where
  "show_int i = (if i < 0 then ''-'' @ dec (nat (- i)) else dec (nat i))"

fun nodeToDot :: "tsnode \<Rightarrow> int \<Rightarrow> nat \<times> string list \<Rightarrow> nat \<times> string list"
  and nodeToDot_children :: "tsnode list \<Rightarrow> int \<Rightarrow> nat \<times> string list \<Rightarrow> nat \<times> string list" where
  "nodeToDot (TSNode ty cs) parentId (nextId, lines) =
     (let myId = nextId;
          lines1 = lines @ [''  '' @ label_line (dec myId) ty];
          lines2 = (if parentId \<noteq> - 1
                    then lines1 @ [''  '' @ edge_line (show_int parentId) (dec myId)]
                    else lines1)
      in nodeToDot_children cs (int myId) (nextId + 1, lines2))"
| "nodeToDot_children [] myId st = st"
| "nodeToDot_children (child # rest) myId st = nodeToDot_children rest myId (nodeToDot child myId st)"

definition ast_dot_lines :: "tsnode \<Rightarrow> string list" where
  "ast_dot_lines rootNode = snd (nodeToDot rootNode (- 1) (0, [''digraph AST {''])) @ [''}'']"

definition ast_dot :: "tsnode \<Rightarrow> string" where
  "ast_dot rootNode = js_join [NL] (ast_dot_lines rootNode)"

text \<open>The nodes of a tree in the order of a depth-first, parent-first walk.\<close>

fun preorder :: "tsnode \<Rightarrow> tsnode list" where
  "preorder (TSNode ty cs) = TSNode ty cs # concat (map preorder cs)"

text \<open>
  Backslash-escaping of double quotes and backslashes: the escaping the specification
  asks of the serialiser. The code has no such step; the definition is here to state
  the claim.
\<close>

definition escape_label :: "string \<Rightarrow> string" where
  "escape_label ty = concat (map (\<lambda>c. if c = DQ \<or> c = BSL then [BSL, c] else [c]) ty)"

text \<open>A type in which no double quote is followed at once by a closing bracket.\<close>

fun quote_bracket_free :: "string \<Rightarrow> bool" where
  "quote_bracket_free [] = True"
| "quote_bracket_free (c # cs) = (\<not> (c = DQ \<and> take 1 cs = '']'') \<and> quote_bracket_free cs)"

section \<open>The viewer: the regular expressions of the parser\<close>

definition skip_space :: "string \<Rightarrow> string" where
  "skip_space s = dropWhile is_space s"

text \<open>A literal piece of a pattern: the rest of the text after it, if the text starts with it.\<close>

fun strip_prefix :: "string \<Rightarrow> string \<Rightarrow> string option" where
  "strip_prefix [] s = Some s"
| "strip_prefix (p # ps) [] = None"
| "strip_prefix (p # ps) (c # cs) = (if p = c then strip_prefix ps cs else None)"

text \<open>\<open>;?\<close> at the end of a pattern.\<close>

definition optional_semicolon :: "string \<Rightarrow> string" where
  "optional_semicolon s = (case s of [] \<Rightarrow> [] | c # cs \<Rightarrow> if c = CHR '';'' then cs else s)"

text \<open>
  \<open>(.*?)"\]\<close>: the lazy group takes no more characters than it must. At each position the
  engine first tries the closing \<open>"]\<close>; only when that fails does the dot take one more
  character, which must not be a line terminator. What follows in the pattern
  (\<open>\s*;?\<close>) cannot fail, so the first \<open>"]\<close> reached ends the label. The result is the
  label and the text after \<open>"]\<close>.
\<close>

fun lazy_label :: "string \<Rightarrow> (string \<times> string) option" where
  "lazy_label [] = None"
| "lazy_label (c # cs) =
     (if c = DQ \<and> take 1 cs = '']'' then Some ([], drop 1 cs)
      else if is_lt c then None
      else (case lazy_label cs of None \<Rightarrow> None | Some (l, r) \<Rightarrow> Some (c # l, r)))"

text \<open>
  \<open>nodeRegex = /([A-Za-z0-9_]+)\s*\[label\s*=\s*"(.*?)"\]\s*;?/g\<close>, tried at the head of
  \<open>s\<close>: the id, the label and the text after the match. The greedy groups are followed
  by a character outside their class, so giving back characters never helps and the
  longest run is the only candidate.
\<close>

definition nodeRegex_at :: "string \<Rightarrow> (string \<times> string \<times> string) option" where
  "nodeRegex_at s =
     (if takeWhile is_idch s = [] then None
      else case strip_prefix ''[label'' (skip_space (dropWhile is_idch s)) of None \<Rightarrow> None
      | Some s1 \<Rightarrow> (case strip_prefix ''='' (skip_space s1) of None \<Rightarrow> None
      | Some s2 \<Rightarrow> (case strip_prefix [DQ] (skip_space s2) of None \<Rightarrow> None
      | Some s3 \<Rightarrow> (case lazy_label s3 of None \<Rightarrow> None
      | Some (label, s4) \<Rightarrow>
          Some (takeWhile is_idch s, label, optional_semicolon (skip_space s4))))))"

text \<open>\<open>edgeRegex = /([A-Za-z0-9_]+)\s*->\s*([A-Za-z0-9_]+)\s*;?/g\<close> at the head of \<open>s\<close>.\<close>

definition edgeRegex_at :: "string \<Rightarrow> (string \<times> string \<times> string) option" where
  "edgeRegex_at s =
     (if takeWhile is_idch s = [] then None
      else case strip_prefix ''->'' (skip_space (dropWhile is_idch s)) of None \<Rightarrow> None
      | Some s1 \<Rightarrow>
          (let s2 = skip_space s1
           in if takeWhile is_idch s2 = [] then None
              else Some (takeWhile is_idch s, takeWhile is_idch s2,
                         optional_semicolon (skip_space (dropWhile is_idch s2)))))"

text \<open>
  \<open>"([^"]+)"\<close>: a quote, the run of characters up to the next quote (not empty), that
  quote.
\<close>

definition quoted_name :: "string \<Rightarrow> (string \<times> string) option" where
  "quoted_name s =
     (case s of [] \<Rightarrow> None
      | c # cs \<Rightarrow>
          if c \<noteq> DQ \<or> takeWhile (\<lambda>d. d \<noteq> DQ) cs = [] then None
          else (case dropWhile (\<lambda>d. d \<noteq> DQ) cs of [] \<Rightarrow> None
                | q # r \<Rightarrow> Some (takeWhile (\<lambda>d. d \<noteq> DQ) cs, r)))"

text \<open>\<open>/"([^"]+)"\s*->\s*"([^"]+)"/\<close> at the head of \<open>s\<close>.\<close>

definition quotedRegex_at :: "string \<Rightarrow> (string \<times> string \<times> string) option" where
  "quotedRegex_at s =
     (case quoted_name s of None \<Rightarrow> None
      | Some (x, r) \<Rightarrow> (case strip_prefix ''->'' (skip_space r) of None \<Rightarrow> None
      | Some r1 \<Rightarrow> (case quoted_name (skip_space r1) of None \<Rightarrow> None
      | Some (y, r2) \<Rightarrow> Some (x, y, r2))))"

text \<open>The first match in a text (\<open>test\<close>, \<open>match\<close>): the start moves right until one is found.\<close>

fun quotedRegex_search :: "string \<Rightarrow> (string \<times> string) option" where
  "quotedRegex_search [] = None"
| "quotedRegex_search (c # cs) =
     (case quotedRegex_at (c # cs) of
        Some (x, y, r) \<Rightarrow> Some (x, y)
      | None \<Rightarrow> quotedRegex_search cs)"

lemma strip_prefix_length: "strip_prefix p s = Some r \<Longrightarrow> length r \<le> length s"
  by (induction p s rule: strip_prefix.induct) (auto split: if_splits)

lemma strip_prefix_sound: "strip_prefix p s = Some r \<Longrightarrow> s = p @ r"
  by (induction p s rule: strip_prefix.induct) (auto split: if_splits)

lemma skip_space_length: "length (skip_space s) \<le> length s"
  by (simp add: skip_space_def length_dropWhile_le)

lemma optional_semicolon_length: "length (optional_semicolon s) \<le> length s"
  by (simp add: optional_semicolon_def split: list.splits)

lemma lazy_label_length: "lazy_label s = Some (l, r) \<Longrightarrow> length r < length s"
  by (induction s arbitrary: l r) (auto split: if_splits option.splits)

lemma dropWhile_shorter: "takeWhile P s \<noteq> [] \<Longrightarrow> length (dropWhile P s) < length s"
  by (cases s) (auto simp: less_Suc_eq_le length_dropWhile_le split: if_splits)

lemma nodeRegex_at_length: "nodeRegex_at s = Some (i, l, r) \<Longrightarrow> length r < length s"
proof -
  assume a: "nodeRegex_at s = Some (i, l, r)"
  then have ne: "takeWhile is_idch s \<noteq> []"
    by (auto simp: nodeRegex_at_def split: if_splits)
  from a ne obtain s1 s2 s3 s4 where
    1: "strip_prefix ''[label'' (skip_space (dropWhile is_idch s)) = Some s1" and
    2: "strip_prefix ''='' (skip_space s1) = Some s2" and
    3: "strip_prefix [DQ] (skip_space s2) = Some s3" and
    4: "lazy_label s3 = Some (l, s4)" and
    5: "r = optional_semicolon (skip_space s4)"
    by (auto simp: nodeRegex_at_def split: option.splits)
  have "length r \<le> length s4"
    using 5 optional_semicolon_length [of "skip_space s4"] skip_space_length [of s4] by simp
  also have "\<dots> < length s3" using 4 by (rule lazy_label_length)
  also have "\<dots> \<le> length s2"
    using strip_prefix_length [OF 3] skip_space_length [of s2] by simp
  also have "\<dots> \<le> length s1"
    using strip_prefix_length [OF 2] skip_space_length [of s1] by simp
  also have "\<dots> \<le> length (dropWhile is_idch s)"
    using strip_prefix_length [OF 1] skip_space_length [of "dropWhile is_idch s"] by simp
  also have "\<dots> \<le> length s" by (rule length_dropWhile_le)
  finally show ?thesis .
qed

lemma edgeRegex_at_length: "edgeRegex_at s = Some (a, b, r) \<Longrightarrow> length r < length s"
proof -
  assume h: "edgeRegex_at s = Some (a, b, r)"
  then have ne: "takeWhile is_idch s \<noteq> []"
    by (auto simp: edgeRegex_at_def split: if_splits)
  from h ne obtain s1 where
    1: "strip_prefix ''->'' (skip_space (dropWhile is_idch s)) = Some s1" and
    2: "r = optional_semicolon (skip_space (dropWhile is_idch (skip_space s1)))"
    by (auto simp: edgeRegex_at_def Let_def split: option.splits if_splits)
  have "length r \<le> length (skip_space s1)"
    using 2 optional_semicolon_length [of "skip_space (dropWhile is_idch (skip_space s1))"]
      skip_space_length [of "dropWhile is_idch (skip_space s1)"]
      length_dropWhile_le [of is_idch "skip_space s1"] by simp
  also have "\<dots> \<le> length s1" by (rule skip_space_length)
  also have "\<dots> \<le> length (dropWhile is_idch s)"
    using strip_prefix_length [OF 1] skip_space_length [of "dropWhile is_idch s"] by simp
  also have "\<dots> < length s" using ne by (rule dropWhile_shorter)
  finally show ?thesis .
qed

text \<open>
  The loops \<open>while ((m = regex.exec(dot)) !== null)\<close>: the matches from left to right, each
  search starting where the previous match ended.
\<close>

function nodeRegex_all :: "string \<Rightarrow> (string \<times> string) list" where
  "nodeRegex_all s =
     (case nodeRegex_at s of
        Some (i, l, r) \<Rightarrow> (i, l) # nodeRegex_all r
      | None \<Rightarrow> (case s of [] \<Rightarrow> [] | c # cs \<Rightarrow> nodeRegex_all cs))"
  by pat_completeness auto
termination
  by (relation "measure length") (auto simp: nodeRegex_at_length)

declare nodeRegex_all.simps [simp del]

function edgeRegex_all :: "string \<Rightarrow> (string \<times> string) list" where
  "edgeRegex_all s =
     (case edgeRegex_at s of
        Some (a, b, r) \<Rightarrow> (a, b) # edgeRegex_all r
      | None \<Rightarrow> (case s of [] \<Rightarrow> [] | c # cs \<Rightarrow> edgeRegex_all cs))"
  by pat_completeness auto
termination
  by (relation "measure length") (auto simp: edgeRegex_at_length)

declare edgeRegex_all.simps [simp del]

section \<open>The viewer: from DOT text to nodes and edges\<close>

text \<open>
  A \<open>Map\<close> keeps its keys in the order of their first insertion; \<open>set\<close> on a key that is
  present changes the value in place.
\<close>

fun map_set :: "'k \<Rightarrow> 'v \<Rightarrow> ('k \<times> 'v) list \<Rightarrow> ('k \<times> 'v) list" where
  "map_set k v [] = [(k, v)]"
| "map_set k v ((k', v') # m) = (if k = k' then (k, v) # m else (k', v') # map_set k v m)"

definition map_has :: "'k \<Rightarrow> ('k \<times> 'v) list \<Rightarrow> bool" where
  "map_has k m = (k \<in> fst ` set m)"

text \<open>\<open>if (!idToLabel.has(x)) idToLabel.set(x, x)\<close>.\<close>

definition set_if_absent :: "string \<Rightarrow> (string \<times> string) list \<Rightarrow> (string \<times> string) list" where
  "set_if_absent x m = (if map_has x m then m else map_set x x m)"

text \<open>\<open>parseDotToElements\<close>: the nodes as (id, label) in the order of the map, and the edges.\<close>

definition parseDotToElements :: "string \<Rightarrow> (string \<times> string) list \<times> (string \<times> string) list" where
  "parseDotToElements dot =
     (let idToLabel = fold (\<lambda>(i, l) m. map_set i l m) (nodeRegex_all dot) [];
          (edges, idToLabel') =
            fold (\<lambda>(src, dst) (edges, m). (edges @ [(src, dst)], set_if_absent dst (set_if_absent src m)))
                 (edgeRegex_all dot) ([], idToLabel)
      in (idToLabel', edges))"

text \<open>\<open>split("\n")\<close>.\<close>

fun split_nl :: "string \<Rightarrow> string list" where
  "split_nl [] = [[]]"
| "split_nl (c # cs) =
     (if c = NL then [] # split_nl cs
      else (case split_nl cs of [] \<Rightarrow> [[c]] | l # ls \<Rightarrow> (c # l) # ls))"

text \<open>A \<open>Set\<close> keeps its elements in the order of their first insertion.\<close>

definition set_add :: "'a \<Rightarrow> 'a list \<Rightarrow> 'a list" where
  "set_add x xs = (if x \<in> set xs then xs else xs @ [x])"

text \<open>
  The quoted branch of \<open>init\<close>: for each line the first quoted edge on it, if any; the
  names go into \<open>nodesSet\<close>, the pair into \<open>edges\<close>.
\<close>

definition quoted_step :: "string \<Rightarrow> string list \<times> (string \<times> string) list \<Rightarrow>
    string list \<times> (string \<times> string) list" where
  "quoted_step line st =
     (case quotedRegex_search line of
        None \<Rightarrow> st
      | Some (a, b) \<Rightarrow> (set_add b (set_add a (fst st)), snd st @ [(a, b)]))"

definition quoted_extract :: "string \<Rightarrow> string list \<times> (string \<times> string) list" where
  "quoted_extract dotText = fold quoted_step (split_nl dotText) ([], [])"

text \<open>\<open>quotedMatch\<close>: the probe on the whole text.\<close>

definition quotedMatch :: "string \<Rightarrow> bool" where
  "quotedMatch dotText = (quotedRegex_search dotText \<noteq> None)"

text \<open>
  The graph the viewer reads from a text: nodes as (id, label) and edges as
  (source, target). In the quoted branch a name is both id and label.
\<close>

definition graph_of_text :: "string \<Rightarrow> (string \<times> string) list \<times> (string \<times> string) list" where
  "graph_of_text dotText =
     (if quotedMatch dotText
      then (map (\<lambda>x. (x, x)) (fst (quoted_extract dotText)), snd (quoted_extract dotText))
      else parseDotToElements dotText)"

section \<open>The viewer: radial layout\<close>

text \<open>
  Positions are numbers of the language, in double precision, and the model does not
  evaluate them: a coordinate is the expression that the code evaluates, with \<open>Math.PI\<close>,
  \<open>Math.cos\<close>, \<open>Math.sin\<close> and the rounded \<open>+\<close>, \<open>*\<close> and \<open>/\<close> as constructors. Lengths,
  indices and the radius are whole numbers far below \<open>2^53\<close>, on which the arithmetic of
  the language is exact; they are computed as integers and enter the expressions as \<open>Num\<close>.
\<close>

datatype double_expr =
    Num int
  | MathPI
  | Plus double_expr double_expr
  | Times double_expr double_expr
  | Over double_expr double_expr
  | MathCos double_expr
  | MathSin double_expr

record node_element =
  el_id :: string
  el_name :: string
  el_x :: double_expr
  el_y :: double_expr

record edge_element =
  edge_id :: string
  edge_source :: string
  edge_target :: string

text \<open>
  \<open>x: centerX + radius * Math.cos(i * angleStep)\<close> and
  \<open>y: centerY + radius * Math.sin(i * angleStep)\<close>, with \<open>centerX = 400\<close> and
  \<open>centerY = 250\<close>.
\<close>

definition place :: "int \<Rightarrow> double_expr \<Rightarrow> nat \<Rightarrow> string \<times> string \<Rightarrow> node_element" where
  "place radius angleStep i node =
     \<lparr> el_id = fst node, el_name = snd node,
       el_x = Plus (Num 400) (Times (Num radius) (MathCos (Times (Num (int i)) angleStep))),
       el_y = Plus (Num 250) (Times (Num radius) (MathSin (Times (Num (int i)) angleStep))) \<rparr>"

definition edge_elements :: "(string \<times> string) list \<Rightarrow> edge_element list" where
  "edge_elements edges =
     map (\<lambda>(i, (s, t)). \<lparr> edge_id = ''e'' @ dec i, edge_source = s, edge_target = t \<rparr>)
         (enumerate 0 edges)"

text \<open>
  \<open>buildCytoscapeElements\<close>: \<open>n = nodes.length || 1\<close>,
  \<open>radius = Math.max(120, Math.min(300, 40 * n))\<close> and \<open>angleStep = (2 * Math.PI) / n\<close>.
\<close>

definition bce_n :: "(string \<times> string) list \<Rightarrow> nat" where
  "bce_n nodes = (if length nodes = 0 then 1 else length nodes)"

definition bce_radius :: "(string \<times> string) list \<Rightarrow> int" where
  "bce_radius nodes = max 120 (min 300 (40 * int (bce_n nodes)))"

definition bce_angleStep :: "(string \<times> string) list \<Rightarrow> double_expr" where
  "bce_angleStep nodes = Over (Times (Num 2) MathPI) (Num (int (bce_n nodes)))"

definition buildCytoscapeElements :: "(string \<times> string) list \<times> (string \<times> string) list \<Rightarrow>
    node_element list \<times> edge_element list" where
  "buildCytoscapeElements parsed =
     (case parsed of (nodes, edges) \<Rightarrow>
        (map (\<lambda>(i, node). place (bce_radius nodes) (bce_angleStep nodes) i node) (enumerate 0 nodes),
         edge_elements edges))"

text \<open>
  The layout of the quoted branch of \<open>init\<close>: \<open>radius = 200\<close> and
  \<open>angleStep = (2 * Math.PI) / Math.max(1, nodesArr.length)\<close>.
\<close>

definition quoted_angleStep :: "string list \<Rightarrow> double_expr" where
  "quoted_angleStep nodesArr = Over (Times (Num 2) MathPI) (Num (int (max 1 (length nodesArr))))"

definition quoted_elements :: "string list \<times> (string \<times> string) list \<Rightarrow>
    node_element list \<times> edge_element list" where
  "quoted_elements ex =
     (case ex of (nodesArr, edges) \<Rightarrow>
        (map (\<lambda>(idx, x). place 200 (quoted_angleStep nodesArr) idx (x, x)) (enumerate 0 nodesArr),
         edge_elements edges))"

text \<open>\<open>elementsData\<close> of \<open>init\<close>.\<close>

definition elementsData :: "string \<Rightarrow> node_element list \<times> edge_element list" where
  "elementsData dotText =
     (if quotedMatch dotText then quoted_elements (quoted_extract dotText)
      else buildCytoscapeElements (parseDotToElements dotText))"

text \<open>\<open>clamp(x, lo, hi)\<close> of the specification, on whole numbers.\<close>

definition clamp :: "int \<Rightarrow> int \<Rightarrow> int \<Rightarrow> int" where
  "clamp x lo hi = (if x < lo then lo else if hi < x then hi else x)"

section \<open>Vocabulary of the properties of the parser\<close>

text \<open>The ids of a node list, and the ids that occur as source or target of an edge.\<close>

definition node_ids :: "('k \<times> 'v) list \<Rightarrow> 'k set" where
  "node_ids nodes = fst ` set nodes"

definition endpoints :: "('a \<times> 'a) list \<Rightarrow> 'a set" where
  "endpoints edges = fst ` set edges \<union> snd ` set edges"

text \<open>One round of the edge loop of \<open>parseDotToElements\<close>, on the map alone.\<close>

definition add_endpoints :: "string \<times> string \<Rightarrow> (string \<times> string) list \<Rightarrow> (string \<times> string) list" where
  "add_endpoints e m = set_if_absent (snd e) (set_if_absent (fst e) m)"

text \<open>The text \<open>"a" -> "a";\<close>: one quoted edge from a node to itself.\<close>

definition one_loop :: string where
  "one_loop = [DQ] @ ''a'' @ [DQ] @ '' -> '' @ [DQ] @ ''a'' @ [DQ] @ '';''"

text \<open>
  A quoted edge \<open>"x" -> "y"\<close> with optional white space around the arrow, and what it
  means for a text to contain one: two names that are not empty and have no double
  quote in them.
\<close>

definition quoted_edge_text :: "string \<Rightarrow> string \<Rightarrow> string \<Rightarrow> string \<Rightarrow> string" where
  "quoted_edge_text x ws1 ws2 y = [DQ] @ x @ [DQ] @ ws1 @ ''->'' @ ws2 @ [DQ] @ y @ [DQ]"

definition has_quoted_edge :: "string \<Rightarrow> bool" where
  "has_quoted_edge dotText =
     (\<exists>pre x ws1 ws2 y post.
        dotText = pre @ quoted_edge_text x ws1 ws2 y @ post
        \<and> x \<noteq> [] \<and> DQ \<notin> set x \<and> y \<noteq> [] \<and> DQ \<notin> set y
        \<and> (\<forall>c \<in> set ws1. is_space c) \<and> (\<forall>c \<in> set ws2. is_space c))"

section \<open>The conversion script: the text of the DOT file (steps 1 to 4 of \<open>convertDotIds\<close>)\<close>

text \<open>Step 1: \<open>.replaceAll('\r\n', '\n')\<close>.\<close>

fun replace_crlf :: "string \<Rightarrow> string" where
  "replace_crlf (c # d # cs) =
     (if c = CR \<and> d = NL then NL # replace_crlf cs else c # replace_crlf (d # cs))"
| "replace_crlf cs = cs"

text \<open>
  Step 2: \<open>commentRegex = /\/\/\s*(\d+):(.*)/g\<close>, tried at the head of \<open>s\<close>: the id, the
  path and the text after the match. White space and digits are disjoint classes, and
  the digits must be followed by a colon, so the greedy runs are the only candidates;
  \<open>(.*)\<close> runs to the end of the line.
\<close>

definition commentRegex_at :: "string \<Rightarrow> (string \<times> string \<times> string) option" where
  "commentRegex_at s =
     (case strip_prefix ''//'' s of None \<Rightarrow> None
      | Some s1 \<Rightarrow>
          (let s2 = skip_space s1
           in if takeWhile is_digit s2 = [] then None
              else (case strip_prefix '':'' (dropWhile is_digit s2) of None \<Rightarrow> None
                    | Some s3 \<Rightarrow> Some (takeWhile is_digit s2,
                                      takeWhile (\<lambda>c. \<not> is_lt c) s3,
                                      dropWhile (\<lambda>c. \<not> is_lt c) s3))))"

lemma commentRegex_at_length: "commentRegex_at s = Some (i, p, r) \<Longrightarrow> length r < length s"
proof -
  assume a: "commentRegex_at s = Some (i, p, r)"
  then obtain s1 s3 where
    1: "strip_prefix ''//'' s = Some s1" and
    2: "strip_prefix '':'' (dropWhile is_digit (skip_space s1)) = Some s3" and
    3: "r = dropWhile (\<lambda>c. \<not> is_lt c) s3"
    by (auto simp: commentRegex_at_def Let_def split: option.splits if_splits)
  have "s = ''//'' @ s1" using 1 by (rule strip_prefix_sound)
  then have "length s1 < length s" by simp
  moreover have "length r \<le> length s3" unfolding 3 by (rule length_dropWhile_le)
  moreover have "length s3 \<le> length s1"
    using strip_prefix_length [OF 2] length_dropWhile_le [of is_digit "skip_space s1"]
      skip_space_length [of s1] by simp
  ultimately show ?thesis by simp
qed

function commentRegex_all :: "string \<Rightarrow> (string \<times> string) list" where
  "commentRegex_all s =
     (case commentRegex_at s of
        Some (i, p, r) \<Rightarrow> (i, p) # commentRegex_all r
      | None \<Rightarrow> (case s of [] \<Rightarrow> [] | c # cs \<Rightarrow> commentRegex_all cs))"
  by pat_completeness auto
termination
  by (relation "measure length") (auto simp: commentRegex_at_length)

declare commentRegex_all.simps [simp del]

text \<open>The map \<open>idToLabel\<close> after the loop: each match sets its id to the basename of its path.\<close>

definition extractLabels :: "(string \<Rightarrow> string) \<Rightarrow> string \<Rightarrow> (string \<rightharpoonup> string)" where
  "extractLabels bn dot = fold (\<lambda>(i, fullPath) m. m(i \<mapsto> bn fullPath)) (commentRegex_all dot) Map.empty"

text \<open>\<open>idToLabel.get(x) || x\<close>: the label, or the id when there is none or it is the empty string.\<close>

definition label_or_id :: "(string \<rightharpoonup> string) \<Rightarrow> string \<Rightarrow> string" where
  "label_or_id idToLabel x = (case idToLabel x of None \<Rightarrow> x | Some l \<Rightarrow> if l = [] then x else l)"

text \<open>
  Step 3: \<open>/^(\s*)(\d+)\s+->\s+(\d+);/gm\<close> tried at the head of \<open>s\<close>, a position where \<open>^\<close>
  holds: the white space, the two ids and the text after the match. Each greedy run is
  followed by a character outside its class, so the longest runs are the only
  candidates.
\<close>

definition edge_stmt_at :: "string \<Rightarrow> (string \<times> string \<times> string \<times> string) option" where
  "edge_stmt_at s =
     (let s1 = dropWhile is_space s; s2 = dropWhile is_digit s1; s3 = dropWhile is_space s2
      in if takeWhile is_digit s1 = [] \<or> takeWhile is_space s2 = [] then None
         else (case strip_prefix ''->'' s3 of None \<Rightarrow> None
               | Some s4 \<Rightarrow>
                   (let s5 = dropWhile is_space s4
                    in if takeWhile is_space s4 = [] \<or> takeWhile is_digit s5 = [] then None
                       else (case strip_prefix '';'' (dropWhile is_digit s5) of None \<Rightarrow> None
                             | Some rest \<Rightarrow>
                                 Some (takeWhile is_space s, takeWhile is_digit s1,
                                       takeWhile is_digit s5, rest)))))"

lemma edge_stmt_at_length: "edge_stmt_at s = Some (sp, f, t, r) \<Longrightarrow> length r < length s"
proof -
  assume a: "edge_stmt_at s = Some (sp, f, t, r)"
  let ?s1 = "dropWhile is_space s"
  from a have ne: "takeWhile is_digit ?s1 \<noteq> []"
    by (auto simp: edge_stmt_at_def Let_def split: if_splits)
  from a obtain s4 where
    1: "strip_prefix ''->'' (dropWhile is_space (dropWhile is_digit ?s1)) = Some s4" and
    2: "strip_prefix '';'' (dropWhile is_digit (dropWhile is_space s4)) = Some r"
    by (auto simp: edge_stmt_at_def Let_def split: if_splits option.splits)
  have "length r \<le> length s4"
    using strip_prefix_length [OF 2] length_dropWhile_le [of is_digit "dropWhile is_space s4"]
      length_dropWhile_le [of is_space s4] by simp
  also have "\<dots> \<le> length (dropWhile is_digit ?s1)"
    using strip_prefix_length [OF 1] length_dropWhile_le [of is_space "dropWhile is_digit ?s1"] by simp
  also have "\<dots> < length ?s1" using ne by (rule dropWhile_shorter)
  also have "\<dots> \<le> length s" by (rule length_dropWhile_le)
  finally show ?thesis .
qed

text \<open>The replacement text of the callback.\<close>

definition edge_replacement :: "(string \<rightharpoonup> string) \<Rightarrow> string \<Rightarrow> string \<Rightarrow> string \<Rightarrow> string" where
  "edge_replacement idToLabel space from to =
     space @ [DQ] @ label_or_id idToLabel from @ [DQ] @ '' -> '' @ [DQ] @ label_or_id idToLabel to
     @ [DQ] @ '';''"

text \<open>
  \<open>dot.replace(regex, callback)\<close> with the flags \<open>gm\<close>: one pass from left to right.
  \<open>bol\<close> says whether \<open>^\<close> holds at the current position, that is whether the text starts
  here or the previous character is a line terminator. A match ends in a semicolon, so
  \<open>^\<close> does not hold right after it.
\<close>

function replaceEdges :: "(string \<rightharpoonup> string) \<Rightarrow> bool \<Rightarrow> string \<Rightarrow> string" where
  "replaceEdges idToLabel bol s =
     (case (if bol then edge_stmt_at s else None) of
        Some (space, from, to, rest) \<Rightarrow>
          edge_replacement idToLabel space from to @ replaceEdges idToLabel False rest
      | None \<Rightarrow> (case s of [] \<Rightarrow> [] | c # cs \<Rightarrow> c # replaceEdges idToLabel (is_lt c) cs))"
  by pat_completeness auto
termination
  by (relation "measure (\<lambda>(m, b, s). length s)") (auto simp: edge_stmt_at_length split: if_splits)

declare replaceEdges.simps [simp del]

text \<open>
  Step 4, first part: \<open>.replace(/^\/\/.*$/gm, '')\<close>. At a line start, two slashes and the
  rest of the line; the match ends before the line terminator or at the end of the text.
\<close>

definition comment_line_at :: "string \<Rightarrow> string option" where
  "comment_line_at s =
     (case strip_prefix ''//'' s of None \<Rightarrow> None
      | Some s1 \<Rightarrow> Some (dropWhile (\<lambda>c. \<not> is_lt c) s1))"

lemma comment_line_at_length: "comment_line_at s = Some r \<Longrightarrow> length r < length s"
proof -
  assume "comment_line_at s = Some r"
  then obtain s1 where 1: "strip_prefix ''//'' s = Some s1" and 2: "r = dropWhile (\<lambda>c. \<not> is_lt c) s1"
    by (auto simp: comment_line_at_def split: option.splits)
  have "s = ''//'' @ s1" using 1 by (rule strip_prefix_sound)
  then have "length s1 < length s" by simp
  then show ?thesis unfolding 2 using length_dropWhile_le [of "\<lambda>c. \<not> is_lt c" s1] by simp
qed

function removeComments :: "bool \<Rightarrow> string \<Rightarrow> string" where
  "removeComments bol s =
     (case (if bol then comment_line_at s else None) of
        Some rest \<Rightarrow> removeComments False rest
      | None \<Rightarrow> (case s of [] \<Rightarrow> [] | c # cs \<Rightarrow> c # removeComments (is_lt c) cs))"
  by pat_completeness auto
termination
  by (relation "measure (\<lambda>(b, s). length s)") (auto simp: comment_line_at_length split: if_splits)

declare removeComments.simps [simp del]

text \<open>
  Step 4, second part: \<open>.replace(/^\s*[\r\n]/gm, '')\<close>. At a line start the greedy \<open>\s*\<close>
  takes the whole run of white space; the class \<open>[\r\n]\<close> then needs one more
  character, so the engine gives characters back until the last character it holds is a
  line feed or a carriage return. The match is the run up to and including its last
  line terminator; there is none when the run has no line terminator.
\<close>

definition blank_at :: "string \<Rightarrow> string option" where
  "blank_at s =
     (let k = length (dropWhile (\<lambda>c. \<not> is_lt c) (rev (takeWhile is_space s)))
      in if k = 0 then None else Some (drop k s))"

lemma blank_at_length: "blank_at s = Some r \<Longrightarrow> length r < length s"
proof -
  assume a: "blank_at s = Some r"
  define k where "k = length (dropWhile (\<lambda>c. \<not> is_lt c) (rev (takeWhile is_space s)))"
  from a have k: "0 < k" and r: "r = drop k s"
    by (auto simp: blank_at_def Let_def k_def split: if_splits)
  have "k \<le> length (takeWhile is_space s)"
    unfolding k_def using length_dropWhile_le [of "\<lambda>c. \<not> is_lt c" "rev (takeWhile is_space s)"]
    by simp
  also have "\<dots> \<le> length s" by (rule length_takeWhile_le)
  finally have "k \<le> length s" .
  then show ?thesis unfolding r using k by simp
qed

function removeBlank :: "bool \<Rightarrow> string \<Rightarrow> string" where
  "removeBlank bol s =
     (case (if bol then blank_at s else None) of
        Some rest \<Rightarrow> removeBlank True rest
      | None \<Rightarrow> (case s of [] \<Rightarrow> [] | c # cs \<Rightarrow> c # removeBlank (is_lt c) cs))"
  by pat_completeness auto
termination
  by (relation "measure (\<lambda>(b, s). length s)") (auto simp: blank_at_length split: if_splits)

declare removeBlank.simps [simp del]

text \<open>The text transformation for a given map (steps 3 and 4), and all of steps 1 to 4.\<close>

definition rewriteDot :: "(string \<rightharpoonup> string) \<Rightarrow> string \<Rightarrow> string" where
  "rewriteDot idToLabel dot = removeBlank True (removeComments True (replaceEdges idToLabel True dot))"

definition convertDotText :: "(string \<Rightarrow> string) \<Rightarrow> string \<Rightarrow> string" where
  "convertDotText bn raw =
     (let dot = replace_crlf raw in rewriteDot (extractLabels bn dot) dot)"

section \<open>Vocabulary of the properties of the conversion\<close>

text \<open>A text that ends in a line terminator.\<close>

definition ends_lt :: "string \<Rightarrow> bool" where
  "ends_lt s = (s \<noteq> [] \<and> is_lt (last s))"

text \<open>A tail that cannot continue a match begun before it.\<close>

definition fresh_start :: "string \<Rightarrow> bool" where
  "fresh_start r = (r = [] \<or> (\<not> is_space (hd r) \<and> \<not> is_digit (hd r)))"

text \<open>Whether two slashes stand next to each other anywhere in a text.\<close>

fun has_comment_start :: "string \<Rightarrow> bool" where
  "has_comment_start (a # b # s) = ((a = CHR ''/'' \<and> b = CHR ''/'') \<or> has_comment_start (b # s))"
| "has_comment_start s = False"

section \<open>The conversion script: files and console (\<open>convertDotIds\<close> as a whole)\<close>

text \<open>
  The world the function acts on: the files by path, and the lines written to the
  console. The messages are the script's without their pictographs; objects printed as a
  second argument are appended as text.
\<close>

datatype log_entry = Log string | Warn string | LogError string

record world =
  files :: "string \<rightharpoonup> string"
  console :: "log_entry list"

text \<open>
  What the function gets from outside. \<open>read_error\<close> and \<open>write_error\<close> say for which
  paths the file system refuses (a file that does not exist cannot be read in any case).
  \<open>json_convert\<close> is the pure part of step 6 on the text of the side file:
  \<open>JSON.parse\<close>, the rebuilding of \<open>variables\<close> and \<open>cells\<close>, \<open>JSON.stringify\<close>; it gives
  the text to write, or the exception raised on the way (a syntax error, or a type error
  on a value of another shape). The functions of \<open>path\<close> are parameters too.
\<close>

record env =
  read_error :: "string \<Rightarrow> js_error option"
  write_error :: "string \<Rightarrow> js_error option"
  json_convert :: "string \<Rightarrow> js_error + string"
  path_basename :: "string \<Rightarrow> string"
  path_basename_ext :: "string \<Rightarrow> string \<Rightarrow> string"
  path_dirname :: "string \<Rightarrow> string"
  path_join :: "string \<Rightarrow> string \<Rightarrow> string"

text \<open>
  A step either returns a value or throws; either way it leaves a world behind. \<open>io_bind\<close>
  is sequencing (\<open>await\<close> and the semicolon), \<open>io_catch\<close> is \<open>try { ... } catch (err) { ... }\<close>.
\<close>

type_synonym 'a io = "world \<Rightarrow> (js_error + 'a) \<times> world"

definition io_bind :: "'a io \<Rightarrow> ('a \<Rightarrow> 'b io) \<Rightarrow> 'b io" where
  "io_bind m f = (\<lambda>w. case m w of (Inl e, w') \<Rightarrow> (Inl e, w') | (Inr x, w') \<Rightarrow> f x w')"

definition io_catch :: "'a io \<Rightarrow> (js_error \<Rightarrow> 'a io) \<Rightarrow> 'a io" where
  "io_catch m h = (\<lambda>w. case m w of (Inl e, w') \<Rightarrow> h e w' | (Inr x, w') \<Rightarrow> (Inr x, w'))"

definition console_write :: "log_entry \<Rightarrow> unit io" where
  "console_write entry = (\<lambda>w. (Inr (), w\<lparr>console := console w @ [entry]\<rparr>))"

definition readFile :: "env \<Rightarrow> string \<Rightarrow> string io" where
  "readFile E path =
     (\<lambda>w. case read_error E path of
            Some e \<Rightarrow> (Inl e, w)
          | None \<Rightarrow> (case files w path of
                        None \<Rightarrow> (Inl (JsError ''Error'' (''ENOENT: no such file or directory, open '' @ [SQ] @ path @ [SQ])), w)
                      | Some content \<Rightarrow> (Inr content, w)))"

definition writeFile :: "env \<Rightarrow> string \<Rightarrow> string \<Rightarrow> unit io" where
  "writeFile E path content =
     (\<lambda>w. case write_error E path of
            Some e \<Rightarrow> (Inl e, w)
          | None \<Rightarrow> (Inr (), w\<lparr>files := (files w)(path \<mapsto> content)\<rparr>))"

definition io_of :: "js_error + 'a \<Rightarrow> 'a io" where
  "io_of r = (\<lambda>w. (r, w))"

text \<open>Step 6, the inner \<open>try\<close> block and its \<open>catch\<close>.\<close>

definition convertSideJson :: "env \<Rightarrow> string \<Rightarrow> string \<Rightarrow> unit io" where
  "convertSideJson E dotDir dotBase =
     (let jsonPath = path_join E dotDir (dotBase @ ''.json'')
      in io_catch
           (io_bind (readFile E jsonPath) (\<lambda>rawJson.
            io_bind (io_of (json_convert E rawJson)) (\<lambda>newJsonText.
            let newJsonPath = path_join E dotDir (dotBase @ ''.converted.json'')
            in io_bind (writeFile E newJsonPath newJsonText) (\<lambda>_.
               console_write (Log (''JSON converted -> '' @ newJsonPath))))))
           (\<lambda>err. console_write (Warn (''JSON file not found or failed to convert: '' @ err_message err))))"

text \<open>The outer \<open>try\<close> block: steps 1 to 6.\<close>

definition convertDotIds_body :: "env \<Rightarrow> string \<Rightarrow> unit io" where
  "convertDotIds_body E dotPath =
     io_bind (readFile E dotPath) (\<lambda>raw.
     let dot = replace_crlf raw
     in io_bind (console_write (Log (''Raw DOT content: '' @ dot))) (\<lambda>_.
        let idToLabel = extractLabels (path_basename E) dot
        in io_bind (console_write (Log ''ID to label map:'')) (\<lambda>_.
           let newDot = rewriteDot idToLabel dot;
               dotDir = path_dirname E dotPath;
               dotBase = path_basename_ext E dotPath ''.dot'';
               newDotPath = path_join E dotDir (dotBase @ ''.converted.dot'')
           in io_bind (writeFile E newDotPath newDot) (\<lambda>_.
              io_bind (console_write (Log (''DOT IDs converted -> '' @ newDotPath))) (\<lambda>_.
              convertSideJson E dotDir dotBase)))))"

text \<open>
  \<open>convertDotIds\<close>: the log line before the \<open>try\<close>, the body, and the outer \<open>catch\<close>. The
  first component of the result says whether the promise is fulfilled (\<open>Inr\<close>) or
  rejected (\<open>Inl\<close>).
\<close>

definition convertDotIds :: "env \<Rightarrow> string \<Rightarrow> unit io" where
  "convertDotIds E dotPath =
     io_bind (console_write (Log (''DOT file path: '' @ dotPath))) (\<lambda>_.
     io_catch (convertDotIds_body E dotPath)
       (\<lambda>err. console_write (LogError (''Failed to convert DOT file: '' @ error_to_string err))))"

text \<open>
  An environment for side files that hold a record set: \<open>parse\<close> reads the text of the
  file into a record set or throws, \<open>stringify\<close> writes the converted record set.
\<close>

definition typed_json_convert :: "(string \<Rightarrow> string) \<Rightarrow>
    (string \<Rightarrow> js_error + (int, 'v, 'm) cell_record_scheme) \<Rightarrow>
    ((js_value, 'v, 'm) cell_record_scheme \<Rightarrow> string) \<Rightarrow> string \<Rightarrow> js_error + string" where
  "typed_json_convert bn parse stringify rawJson =
     (case parse rawJson of Inl e \<Rightarrow> Inl e | Inr parsed \<Rightarrow> Inr (stringify (convertJson bn parsed)))"

text \<open>The paths of the converted DOT file and of the side JSON file.\<close>

definition newDotPath_of :: "env \<Rightarrow> string \<Rightarrow> string" where
  "newDotPath_of E dotPath =
     path_join E (path_dirname E dotPath) (path_basename_ext E dotPath ''.dot'' @ ''.converted.dot'')"

definition jsonPath_of :: "env \<Rightarrow> string \<Rightarrow> string" where
  "jsonPath_of E dotPath =
     path_join E (path_dirname E dotPath) (path_basename_ext E dotPath ''.dot'' @ ''.json'')"

text \<open>
  An environment for the examples: nothing is refused, the side file never parses, and
  the output directory and base name are fixed.
\<close>

definition example_env :: env where
  "example_env =
     \<lparr> read_error = (\<lambda>p. None), write_error = (\<lambda>p. None),
       json_convert = (\<lambda>raw. Inl (JsError ''SyntaxError'' ''Unexpected end of JSON input'')),
       path_basename = posix_basename,
       path_basename_ext = (\<lambda>p ext. ''depends-output-file''),
       path_dirname = (\<lambda>p. ''out''),
       path_join = (\<lambda>a b. a @ ''/'' @ b) \<rparr>"

section \<open>Vocabulary of the properties of the rewriting\<close>

text \<open>A text without line terminator, and a text of white space only.\<close>

definition no_lt :: "string \<Rightarrow> bool" where
  "no_lt s = (\<forall>c \<in> set s. \<not> is_lt c)"

definition all_space :: "string \<Rightarrow> bool" where
  "all_space s = (\<forall>c \<in> set s. is_space c)"

text \<open>The text whose lines are \<open>us\<close>, each ended by a line feed, followed by the last line \<open>v\<close>.\<close>

definition lines_text :: "string list \<Rightarrow> string \<Rightarrow> string" where
  "lines_text us v = concat (map (\<lambda>u. u @ [NL]) us) @ v"

text \<open>What the removal of comments leaves of one line.\<close>

definition strip_comment :: "string \<Rightarrow> string" where
  "strip_comment u = (if take 2 u = ''//'' then [] else u)"

text \<open>
  The lines of a DOT file as \<open>depends\<close> writes it: an edge between two numeric ids (white
  space, the two ids around \<open> -> \<close>, a semicolon, then anything), a comment that starts in
  the first column (the text after the two slashes), a line of white space, and any other
  line.
\<close>

datatype dot_line =
    EdgeLine string string string string
  | CommentLine string
  | BlankLine string
  | OtherLine string

fun render :: "dot_line \<Rightarrow> string" where
  "render (EdgeLine ws from to rest) = ws @ from @ '' -> '' @ to @ '';'' @ rest"
| "render (CommentLine ct) = ''//'' @ ct"
| "render (BlankLine ws) = ws"
| "render (OtherLine s) = s"

definition all_digits :: "string \<Rightarrow> bool" where
  "all_digits s = (s \<noteq> [] \<and> (\<forall>c \<in> set s. is_digit c))"

text \<open>
  The fields of a line are what their names say and hold no line terminator. Another line
  has a first character after its white space, which is not a digit, and no two slashes
  there: a comment after white space is none of the four.
\<close>

fun wf_line :: "dot_line \<Rightarrow> bool" where
  "wf_line (EdgeLine ws from to rest) =
     (all_space ws \<and> no_lt ws \<and> all_digits from \<and> all_digits to \<and> no_lt rest)"
| "wf_line (CommentLine ct) = no_lt ct"
| "wf_line (BlankLine ws) = (all_space ws \<and> no_lt ws)"
| "wf_line (OtherLine s) =
     (no_lt s \<and> dropWhile is_space s \<noteq> [] \<and> \<not> is_digit (hd (dropWhile is_space s))
      \<and> take 2 (dropWhile is_space s) \<noteq> ''//'')"

text \<open>A line after the replacement of the edges, and after the three replacements.\<close>

fun edges_done :: "(string \<rightharpoonup> string) \<Rightarrow> dot_line \<Rightarrow> string" where
  "edges_done m (EdgeLine ws from to rest) = edge_replacement m ws from to @ rest"
| "edges_done m l = render l"

fun out_line :: "(string \<rightharpoonup> string) \<Rightarrow> dot_line \<Rightarrow> string" where
  "out_line m (EdgeLine ws from to rest) = edge_replacement m ws from to @ rest"
| "out_line m (CommentLine ct) = []"
| "out_line m (BlankLine ws) = ws"
| "out_line m (OtherLine s) = s"

text \<open>The lines that stay: edges and other lines.\<close>

fun kept :: "dot_line \<Rightarrow> bool" where
  "kept (EdgeLine ws from to rest) = True"
| "kept (OtherLine s) = True"
| "kept l = False"

text \<open>A map whose labels hold no line terminator, and a basename function that adds none.\<close>

definition lt_free_labels :: "(string \<rightharpoonup> string) \<Rightarrow> bool" where
  "lt_free_labels m = (\<forall>x l. m x = Some l \<longrightarrow> no_lt l)"

definition keeps_lt_free :: "(string \<Rightarrow> string) \<Rightarrow> bool" where
  "keeps_lt_free bn = (\<forall>p. no_lt p \<longrightarrow> no_lt (bn p))"

text \<open>A text that ends where a line starts: the empty text, or one that ends in a line terminator.\<close>

definition line_start :: "string \<Rightarrow> bool" where
  "line_start pre = (pre = [] \<or> ends_lt pre)"

text \<open>
  A text that cannot complete an edge statement begun before it: after its white space
  there is no arrow, and no number followed by a semicolon.
\<close>

definition edge_fresh :: "string \<Rightarrow> bool" where
  "edge_fresh r =
     (strip_prefix ''->'' (dropWhile is_space r) = None
      \<and> (takeWhile is_digit (dropWhile is_space r) = []
         \<or> strip_prefix '';'' (dropWhile is_digit (dropWhile is_space r)) = None))"

text \<open>
  The label and the edge line in the words of the specification: the map lookup, the id
  itself when the map has no entry for it.
\<close>

definition spec_label :: "(string \<rightharpoonup> string) \<Rightarrow> string \<Rightarrow> string" where
  "spec_label idToLabel x = (case idToLabel x of None \<Rightarrow> x | Some l \<Rightarrow> l)"

definition spec_edge_line :: "(string \<rightharpoonup> string) \<Rightarrow> string \<Rightarrow> string \<Rightarrow> string \<Rightarrow> string" where
  "spec_edge_line idToLabel space from to =
     space @ [DQ] @ spec_label idToLabel from @ [DQ] @ '' -> '' @ [DQ] @ spec_label idToLabel to
     @ [DQ] @ '';''"

text \<open>The lines of a text whose first characters after the white space are two slashes.\<close>

definition comment_lines :: "string \<Rightarrow> string list" where
  "comment_lines s = filter (\<lambda>l. take 2 (dropWhile is_space l) = ''//'') (split_nl s)"

chapter \<open>Properties\<close>

section \<open>Side JSON file\<close>

text \<open>
  Claim C1, as stated: the converted record set has the basenames as \<open>variables\<close> and the
  cells copied unchanged, \<open>src\<close> and \<open>dest\<close> still the numeric indices. The code does not
  keep the indices: it stores \<open>newVariables[cell.src]\<close>, the basename the index points
  to. For the one-variable record set below, the \<open>src\<close> of the converted cell is the
  string \<open>b.py\<close> and not the number 0.
\<close>

theorem convertJson_src_not_index:
  "src (hd (cells (convertJson posix_basename
      \<lparr> variables = [''/a/b.py''], cells = [\<lparr> src = 0, dest = 0, cell_values = () \<rparr>] \<rparr>)))
   = JString ''b.py''
   \<and> src (hd (cells (convertJson posix_basename
      \<lparr> variables = [''/a/b.py''], cells = [\<lparr> src = 0, dest = 0, cell_values = () \<rparr>] \<rparr>)))
   \<noteq> JNumber 0"
  by (simp add: convertJson_def js_index_def posix_basename_def)

lemma js_index_map:
  "js_index (map bn xs) k =
     (if 0 \<le> k \<and> k < int (length xs) then JString (bn (xs ! nat k)) else JUndefined)"
proof (cases "0 \<le> k \<and> k < int (length xs)")
  case True
  then have "nat k < length xs" by linarith
  then show ?thesis using True by (simp add: js_index_def)
next
  case False
  then show ?thesis by (auto simp add: js_index_def)
qed

text \<open>
  Claim C1, amended: \<open>variables\<close> become the basenames of the input paths, in order; the
  cells keep their number, their order and their \<open>values\<close>; the other fields of the
  object are kept; and \<open>src\<close> and \<open>dest\<close> of a cell are replaced by the basename of the
  variable they index (\<open>undefined\<close> for an index outside the list).
\<close>

theorem convertJson_cells:
  "variables (convertJson bn parsed) = map bn (variables parsed)
   \<and> cell_record.more (convertJson bn parsed) = cell_record.more parsed
   \<and> length (cells (convertJson bn parsed)) = length (cells parsed)
   \<and> (\<forall>i < length (cells parsed).
        cell_values (cells (convertJson bn parsed) ! i) = cell_values (cells parsed ! i)
        \<and> src (cells (convertJson bn parsed) ! i) =
            (if 0 \<le> src (cells parsed ! i) \<and> src (cells parsed ! i) < int (length (variables parsed))
             then JString (bn (variables parsed ! nat (src (cells parsed ! i)))) else JUndefined)
        \<and> dest (cells (convertJson bn parsed) ! i) =
            (if 0 \<le> dest (cells parsed ! i) \<and> dest (cells parsed ! i) < int (length (variables parsed))
             then JString (bn (variables parsed ! nat (dest (cells parsed ! i)))) else JUndefined))"
  by (simp add: convertJson_def js_index_map Let_def)

theorem convertJson_cells_witness:
  "cell_values (cells (convertJson posix_basename
      \<lparr> variables = [''/x/a.py'', ''/x/b.py''],
        cells = [\<lparr> src = 1, dest = 0, cell_values = (3::nat) \<rparr>, \<lparr> src = 0, dest = 2, cell_values = 4 \<rparr>] \<rparr>) ! 1) = 4
   \<and> src (cells (convertJson posix_basename
      \<lparr> variables = [''/x/a.py'', ''/x/b.py''],
        cells = [\<lparr> src = 1, dest = 0, cell_values = (3::nat) \<rparr>, \<lparr> src = 0, dest = 2, cell_values = 4 \<rparr>] \<rparr>) ! 1)
      = JString ''a.py''
   \<and> dest (cells (convertJson posix_basename
      \<lparr> variables = [''/x/a.py'', ''/x/b.py''],
        cells = [\<lparr> src = 1, dest = 0, cell_values = (3::nat) \<rparr>, \<lparr> src = 0, dest = 2, cell_values = 4 \<rparr>] \<rparr>) ! 1)
      = JUndefined"
  using convertJson_cells [of posix_basename
      "\<lparr> variables = [''/x/a.py'', ''/x/b.py''],
        cells = [\<lparr> src = 1, dest = 0, cell_values = (3::nat) \<rparr>, \<lparr> src = 0, dest = 2, cell_values = 4 \<rparr>] \<rparr>"]
  by (simp add: posix_basename_def)

section \<open>Fetching the tree of a node\<close>

lemma first_occurrences_set: "set (first_occurrences xs) = set xs"
  by (induction xs rule: first_occurrences.induct) auto

lemma first_occurrences_distinct: "distinct (first_occurrences xs)"
  by (induction xs rule: first_occurrences.induct) (auto simp: first_occurrences_set)

lemma first_occurrences_subseq: "subseq (first_occurrences xs) xs"
proof (induction xs rule: first_occurrences.induct)
  case 1 show ?case by simp
next
  case (2 x xs)
  have "subseq (filter (\<lambda>y. y \<noteq> x) xs) xs" by simp
  with 2 have "subseq (first_occurrences (filter (\<lambda>y. y \<noteq> x) xs)) xs"
    using subseq_order.order_trans by blast
  then show ?case by simp
qed

lemma tryCandidates_all_fail:
  "\<forall>u \<in> set urls. retrieved (fetch u) = None \<Longrightarrow>
   tryCandidates fetch urls tried =
     (tried @ first_occurrences (filter (\<lambda>u. u \<notin> set tried) urls), None)"
proof (induction urls arbitrary: tried)
  case Nil show ?case by simp
next
  case (Cons u urls)
  show ?case
  proof (cases "u \<in> set tried")
    case True
    then show ?thesis using Cons by simp
  next
    case False
    have f: "(\<lambda>ua. ua \<noteq> u \<and> ua \<notin> set tried) = (\<lambda>x. x \<notin> set tried \<and> x \<noteq> u)"
      by auto
    show ?thesis using False Cons by (simp add: f)
  qed
qed

lemma tryCandidates_first_success:
  "\<forall>v \<in> set pre. retrieved (fetch v) = None \<Longrightarrow> retrieved (fetch u) = Some t \<Longrightarrow>
   u \<notin> set tried \<Longrightarrow>
   tryCandidates fetch (pre @ u # post) tried =
     (tried @ first_occurrences (filter (\<lambda>u. u \<notin> set tried) pre) @ [u], Some (u, t))"
proof (induction pre arbitrary: tried)
  case Nil then show ?case by simp
next
  case (Cons v pre)
  have vu: "v \<noteq> u" using Cons.prems by auto
  show ?case
  proof (cases "v \<in> set tried")
    case True
    then show ?thesis using Cons by simp
  next
    case False
    have f: "(\<lambda>u. u \<noteq> v \<and> u \<notin> set tried) = (\<lambda>x. x \<notin> set tried \<and> x \<noteq> v)"
      by auto
    have "u \<notin> set (tried @ [v])" using Cons.prems vu by simp
    then show ?thesis using False Cons.prems Cons.IH[of "tried @ [v]"] by (simp add: f)
  qed
qed

lemma js_join_concat: "js_join sep (x # xs) = x @ concat (map (\<lambda>y. sep @ y) xs)"
  by (induction xs arbitrary: x) simp_all

lemma not_found_message_text:
  "tried \<noteq> [] \<Longrightarrow>
   not_found_message nodeId tried =
     ''No DOT file found for '' @ [DQ] @ nodeId @ [DQ] @ ''. Tried: ''
     @ hd tried @ concat (map (\<lambda>u. '', '' @ u) (tl tried))
     @ ''. Put the file in public/dot/ or ensure your server exposes /dot/ path.''"
  by (cases tried) (simp_all add: not_found_message_def js_join_concat del: js_join.simps)

lemma first_occurrences_candidates: "first_occurrences (candidates enc nodeId) \<noteq> []"
  by (simp add: candidates_def)

text \<open>
  Claim C8: the candidates are requested in order, a location equal to an earlier one
  being skipped. At the first location that is retrieved the function stops and
  resolves to it: the requests made are the candidates before it, without repetitions,
  and that location. When no candidate is retrieved the function rejects with the
  message that lists the requested locations: the node id in double quotes, then after
  \<open>Tried:\<close> the candidates in order, repetitions removed, with a comma and a space
  between two of them, then the advice where to put the file (the list is not empty, is
  duplicate-free, has the same elements and keeps the order).
\<close>

theorem fetchDotForNode_ordered_fallback:
  "(\<forall>pre u post t.
      candidates enc nodeId = pre @ u # post \<and> (\<forall>v \<in> set pre. retrieved (fetch v) = None)
        \<and> retrieved (fetch u) = Some t
      \<longrightarrow> fetchDotForNode enc fetch nodeId = (first_occurrences pre @ [u], Inr (u, t)))
   \<and> ((\<forall>u \<in> set (candidates enc nodeId). retrieved (fetch u) = None)
      \<longrightarrow> fetchDotForNode enc fetch nodeId =
            (first_occurrences (candidates enc nodeId),
             Inl (JsError ''Error''
                   (''No DOT file found for '' @ [DQ] @ nodeId @ [DQ] @ ''. Tried: ''
                    @ hd (first_occurrences (candidates enc nodeId))
                    @ concat (map (\<lambda>u. '', '' @ u) (tl (first_occurrences (candidates enc nodeId))))
                    @ ''. Put the file in public/dot/ or ensure your server exposes /dot/ path.''))))
   \<and> first_occurrences (candidates enc nodeId) \<noteq> []
   \<and> distinct (first_occurrences (candidates enc nodeId))
   \<and> set (first_occurrences (candidates enc nodeId)) = set (candidates enc nodeId)
   \<and> subseq (first_occurrences (candidates enc nodeId)) (candidates enc nodeId)"
proof (intro conjI allI impI)
  fix pre u post t
  assume h: "candidates enc nodeId = pre @ u # post \<and> (\<forall>v \<in> set pre. retrieved (fetch v) = None)
        \<and> retrieved (fetch u) = Some t"
  then have "tryCandidates fetch (pre @ u # post) [] =
      ([] @ first_occurrences (filter (\<lambda>u. u \<notin> set []) pre) @ [u], Some (u, t))"
    by (intro tryCandidates_first_success) auto
  then show "fetchDotForNode enc fetch nodeId = (first_occurrences pre @ [u], Inr (u, t))"
    using h by (simp add: fetchDotForNode_def)
next
  assume "\<forall>u \<in> set (candidates enc nodeId). retrieved (fetch u) = None"
  from tryCandidates_all_fail[OF this, of "[]"]
  have "fetchDotForNode enc fetch nodeId =
            (first_occurrences (candidates enc nodeId),
             Inl (JsError ''Error''
                   (not_found_message nodeId (first_occurrences (candidates enc nodeId)))))"
    by (simp add: fetchDotForNode_def)
  then show "fetchDotForNode enc fetch nodeId =
            (first_occurrences (candidates enc nodeId),
             Inl (JsError ''Error''
                   (''No DOT file found for '' @ [DQ] @ nodeId @ [DQ] @ ''. Tried: ''
                    @ hd (first_occurrences (candidates enc nodeId))
                    @ concat (map (\<lambda>u. '', '' @ u) (tl (first_occurrences (candidates enc nodeId))))
                    @ ''. Put the file in public/dot/ or ensure your server exposes /dot/ path.'')))"
    unfolding not_found_message_text [OF first_occurrences_candidates] .
next
  show "first_occurrences (candidates enc nodeId) \<noteq> []" by (rule first_occurrences_candidates)
qed (simp_all add: first_occurrences_distinct first_occurrences_set first_occurrences_subseq)

lemma encodeURIComponent_example: "encodeURIComponent ''util/helpers.py'' = ''util%2Fhelpers.py''"
  by (simp add: encodeURIComponent_def encode_unit_def uri_unreserved_def is_idch_def
      percent_byte_def hex_digit_def)

lemma candidates_example:
  "candidates encodeURIComponent ''util/helpers.py'' =
    [''/dot/util%2Fhelpers.py.tree.dot'', ''/dot/util%2Fhelpers.py.dot'',
     ''/dot/util%2Fhelpers.py.tree.dot.txt'', ''/util%2Fhelpers.py.tree.dot'',
     ''/util%2Fhelpers.py.dot'', ''/dot/util%2Fhelpers.py.tree.dot'',
     ''/dot/util__helpers.py.tree.dot'']"
  by (simp add: candidates_def encodeURIComponent_example)

text \<open>
  The node \<open>util/helpers.py\<close>: with nothing to retrieve, six locations are requested
  and listed; with the second location present, two requests are made.
\<close>

theorem fetchDotForNode_ordered_fallback_witness:
  "fetchDotForNode encodeURIComponent (\<lambda>u. FetchRejects) ''util/helpers.py'' =
     ([''/dot/util%2Fhelpers.py.tree.dot'', ''/dot/util%2Fhelpers.py.dot'',
       ''/dot/util%2Fhelpers.py.tree.dot.txt'', ''/util%2Fhelpers.py.tree.dot'',
       ''/util%2Fhelpers.py.dot'', ''/dot/util__helpers.py.tree.dot''],
      Inl (JsError ''Error''
        (''No DOT file found for '' @ [DQ] @ ''util/helpers.py'' @ [DQ]
         @ ''. Tried: /dot/util%2Fhelpers.py.tree.dot, /dot/util%2Fhelpers.py.dot, ''
         @ ''/dot/util%2Fhelpers.py.tree.dot.txt, /util%2Fhelpers.py.tree.dot, ''
         @ ''/util%2Fhelpers.py.dot, /dot/util__helpers.py.tree.dot''
         @ ''. Put the file in public/dot/ or ensure your server exposes /dot/ path.'')))
   \<and> fetchDotForNode encodeURIComponent
        (\<lambda>u. if u = ''/dot/util%2Fhelpers.py.dot'' then Response True 200 (Some ''digraph G {}'')
             else Response False 404 None) ''util/helpers.py'' =
     ([''/dot/util%2Fhelpers.py.tree.dot'', ''/dot/util%2Fhelpers.py.dot''],
      Inr (''/dot/util%2Fhelpers.py.dot'', ''digraph G {}''))"
proof -
  let ?f = "\<lambda>u. if u = ''/dot/util%2Fhelpers.py.dot'' then Response True 200 (Some ''digraph G {}'')
             else Response False 404 None"
  have a: "\<forall>u \<in> set (candidates encodeURIComponent ''util/helpers.py''). retrieved (FetchRejects) = None"
    by (simp add: retrieved_def)
  have b: "candidates encodeURIComponent ''util/helpers.py'' =
      [''/dot/util%2Fhelpers.py.tree.dot''] @ ''/dot/util%2Fhelpers.py.dot'' #
      [''/dot/util%2Fhelpers.py.tree.dot.txt'', ''/util%2Fhelpers.py.tree.dot'',
       ''/util%2Fhelpers.py.dot'', ''/dot/util%2Fhelpers.py.tree.dot'',
       ''/dot/util__helpers.py.tree.dot'']
     \<and> (\<forall>v \<in> set [''/dot/util%2Fhelpers.py.tree.dot'']. retrieved (?f v) = None)
     \<and> retrieved (?f ''/dot/util%2Fhelpers.py.dot'') = Some ''digraph G {}''"
    by (simp add: candidates_example retrieved_def)
  note t1 = fetchDotForNode_ordered_fallback
      [of encodeURIComponent "''util/helpers.py''" "\<lambda>u. FetchRejects"]
  note t2 = fetchDotForNode_ordered_fallback [of encodeURIComponent "''util/helpers.py''" ?f]
  from t1 a have 1: "fetchDotForNode encodeURIComponent (\<lambda>u. FetchRejects) ''util/helpers.py'' =
      (first_occurrences (candidates encodeURIComponent ''util/helpers.py''),
       Inl (JsError ''Error''
         (''No DOT file found for '' @ [DQ] @ ''util/helpers.py'' @ [DQ] @ ''. Tried: ''
          @ hd (first_occurrences (candidates encodeURIComponent ''util/helpers.py''))
          @ concat (map (\<lambda>u. '', '' @ u)
              (tl (first_occurrences (candidates encodeURIComponent ''util/helpers.py''))))
          @ ''. Put the file in public/dot/ or ensure your server exposes /dot/ path.'')))"
    by blast
  from t2 b have 2: "fetchDotForNode encodeURIComponent ?f ''util/helpers.py'' =
     (first_occurrences [''/dot/util%2Fhelpers.py.tree.dot''] @ [''/dot/util%2Fhelpers.py.dot''],
      Inr (''/dot/util%2Fhelpers.py.dot'', ''digraph G {}''))"
    by blast
  have 3: "first_occurrences (candidates encodeURIComponent ''util/helpers.py'') =
     [''/dot/util%2Fhelpers.py.tree.dot'', ''/dot/util%2Fhelpers.py.dot'',
       ''/dot/util%2Fhelpers.py.tree.dot.txt'', ''/util%2Fhelpers.py.tree.dot'',
       ''/util%2Fhelpers.py.dot'', ''/dot/util__helpers.py.tree.dot'']"
    by (simp add: candidates_example)
  show ?thesis using 1 2 3 by simp
qed

section \<open>The tap handler\<close>

text \<open>
  Claim C9, as stated: activating a node clears the prior error and the prior overlay
  content before the new fetch, and records the node's id as the title. The handler
  calls \<open>setPopupError(null)\<close> and \<open>setPopupTitle(nodeId)\<close> and nothing else before the
  fetch: an overlay that shows a graph still holds that graph while the fetch runs.
\<close>

theorem tap_begin_keeps_content:
  "popupDot (tap_begin ''b.py''
      \<lparr> popupDot = Some ''digraph G {}'', popupTitle = Some ''a.py'', popupError = None \<rparr>)
   \<noteq> None"
  by (simp add: tap_begin_def)

text \<open>
  Claim C9, amended: from every overlay state, activating a node clears the prior error
  and records the node's id as the title before the fetch, and leaves the content as it
  was; the content is replaced when the fetch settles, by the fetched text or, on
  failure, by nothing (with the error's text recorded).
\<close>

theorem tap_begin_clears_error_sets_title:
  "popupError (tap_begin nodeId st) = None
   \<and> popupTitle (tap_begin nodeId st) = Some nodeId
   \<and> popupDot (tap_begin nodeId st) = popupDot st
   \<and> tap_settle (Inr (url, text)) (tap_begin nodeId st) =
        \<lparr> popupDot = Some text, popupTitle = Some nodeId, popupError = None \<rparr>
   \<and> tap_settle (Inl err) (tap_begin nodeId st) =
        \<lparr> popupDot = None, popupTitle = Some nodeId, popupError = Some (error_text err) \<rparr>"
  by (simp add: tap_begin_def tap_settle_def)

section \<open>Syntax trees to DOT\<close>

lemma digit_char_is_digit: "d < 10 \<Longrightarrow> is_digit (digit_char d)"
proof -
  assume "d < 10"
  then have "d \<in> {0,1,2,3,4,5,6,7,8,9}" by auto
  then show ?thesis by (auto simp: digit_char_def is_digit_def)
qed

lemma dec_digits: "dec n \<noteq> [] \<and> (\<forall>c \<in> set (dec n). is_digit c)"
proof (induction n rule: dec.induct)
  case (1 n)
  show ?case
  proof (cases "n < 10")
    case True
    then show ?thesis by (subst dec.simps, subst (2) dec.simps) (simp add: digit_char_is_digit)
  next
    case False
    then have "is_digit (digit_char (n mod 10))" by (simp add: digit_char_is_digit)
    then show ?thesis using False 1 by (subst dec.simps, subst (2) dec.simps) simp
  qed
qed

lemma is_digit_idch: "is_digit c \<Longrightarrow> is_idch c"
  by (simp add: is_digit_def is_idch_def Let_def)

lemma lazy_label_verbatim:
  "quote_bracket_free ty \<Longrightarrow> \<forall>c \<in> set ty. \<not> is_lt c \<Longrightarrow>
   lazy_label (ty @ DQ # CHR '']'' # rest) = Some (ty, rest)"
proof (induction ty)
  case Nil show ?case by simp
next
  case (Cons c cs)
  then show ?case by (cases cs) (auto simp: DQ_def)
qed

lemma nodeRegex_at_label_line:
  assumes "ident \<noteq> []" "\<forall>c \<in> set ident. is_idch c"
    "quote_bracket_free ty" "\<forall>c \<in> set ty. \<not> is_lt c"
  shows "nodeRegex_at (label_line ident ty @ rest) = Some (ident, ty, rest)"
proof -
  let ?tail = "''[label='' @ [DQ] @ ty @ [DQ] @ ''];'' @ rest"
  have sp: "\<not> is_idch (CHR '' '')" by (simp add: is_idch_def)
  have eq: "label_line ident ty @ rest = ident @ CHR '' '' # ?tail"
    by (simp add: label_line_def)
  have tw: "takeWhile is_idch (ident @ CHR '' '' # ?tail) = ident"
    using assms(2) sp by (simp add: takeWhile_tail)
  have dw: "dropWhile is_idch (ident @ CHR '' '' # ?tail) = CHR '' '' # ?tail"
    using assms(2) sp by (simp add: dropWhile_append3)
  have s1: "skip_space (CHR '' '' # ?tail) = ?tail"
    by (simp add: skip_space_def is_space_def)
  have s2: "skip_space (CHR ''='' # x) = CHR ''='' # x" for x
    by (simp add: skip_space_def is_space_def)
  have s3: "skip_space (DQ # x) = DQ # x" for x
    by (simp add: skip_space_def is_space_def DQ_def)
  have s4: "skip_space (CHR '';'' # x) = CHR '';'' # x" for x
    by (simp add: skip_space_def is_space_def)
  have ll: "lazy_label (ty @ DQ # CHR '']'' # CHR '';'' # rest) = Some (ty, CHR '';'' # rest)"
    using assms(3,4) by (rule lazy_label_verbatim)
  show ?thesis
    unfolding eq nodeRegex_at_def tw dw s1
    using assms(1) by (simp add: s2 s3 s4 ll optional_semicolon_def)
qed

lemma nodeRegex_all_Nil: "nodeRegex_all [] = []"
  by (subst nodeRegex_all.simps) (simp add: nodeRegex_at_def)

lemma nodeRegex_all_label_line:
  assumes "ident \<noteq> []" "\<forall>c \<in> set ident. is_idch c"
    "quote_bracket_free ty" "\<forall>c \<in> set ty. \<not> is_lt c"
  shows "nodeRegex_all (label_line ident ty) = [(ident, ty)]"
  using nodeRegex_at_label_line [OF assms, of "[]"]
  by (subst nodeRegex_all.simps) (simp add: nodeRegex_all_Nil)

lemma addNode_lines:
  "fst (addNode n (c, ls)) = ''n'' @ dec c
   \<and> fst (snd (addNode n (c, ls))) = c + length (preorder n)
   \<and> (\<exists>body. snd (snd (addNode n (c, ls))) = ls @ body
        \<and> (\<forall>k < length (preorder n).
              label_line (''n'' @ dec (c + k)) (node_type (preorder n ! k)) \<in> set body))"
  and addChildren_lines:
  "fst (addChildren p cs (c, ls)) = c + length (concat (map preorder cs))
   \<and> (\<exists>body. snd (addChildren p cs (c, ls)) = ls @ body
        \<and> (\<forall>k < length (concat (map preorder cs)).
              label_line (''n'' @ dec (c + k)) (node_type (concat (map preorder cs) ! k)) \<in> set body))"
proof (induction n "(c, ls)" and p cs "(c, ls)" arbitrary: c ls and c ls rule: addNode_addChildren.induct)
  case (1 ty cs idCounter lines)
  let ?l0 = "label_line (''n'' @ dec idCounter) ty"
  from 1 [OF refl] obtain body where
    c: "fst (addChildren (''n'' @ dec idCounter) cs (idCounter + 1, lines @ [?l0]))
        = idCounter + 1 + length (concat (map preorder cs))" and
    b: "snd (addChildren (''n'' @ dec idCounter) cs (idCounter + 1, lines @ [?l0])) = (lines @ [?l0]) @ body" and
    m: "\<forall>k < length (concat (map preorder cs)).
          label_line (''n'' @ dec (idCounter + 1 + k)) (node_type (concat (map preorder cs) ! k)) \<in> set body"
    by blast
  have "\<forall>k < length (preorder (TSNode ty cs)).
          label_line (''n'' @ dec (idCounter + k)) (node_type (preorder (TSNode ty cs) ! k)) \<in> set (?l0 # body)"
  proof (intro allI impI)
    fix k assume k: "k < length (preorder (TSNode ty cs))"
    show "label_line (''n'' @ dec (idCounter + k)) (node_type (preorder (TSNode ty cs) ! k)) \<in> set (?l0 # body)"
    proof (cases k)
      case 0 then show ?thesis by simp
    next
      case (Suc j)
      then have "j < length (concat (map preorder cs))" using k by simp
      with m have "label_line (''n'' @ dec (idCounter + 1 + j)) (node_type (concat (map preorder cs) ! j)) \<in> set body"
        by blast
      then show ?thesis using Suc by simp
    qed
  qed
  then show ?case using c b by (simp add: Let_def) 
next
  case (2 nodeId c ls)
  show ?case by simp
next
  case (3 nodeId child rest c ls)
  obtain childId c1 ls1 where r: "addNode child (c, ls) = (childId, (c1, ls1))"
    by (metis prod.exhaust)
  from "3.hyps"(1) r obtain body1 where
    c1: "c1 = c + length (preorder child)" and
    b1: "ls1 = ls @ body1" and
    m1: "\<forall>k < length (preorder child).
          label_line (''n'' @ dec (c + k)) (node_type (preorder child ! k)) \<in> set body1"
    by auto
  from "3.hyps"(2) [OF r [symmetric] refl] obtain body2 where
    c2: "fst (addChildren nodeId rest (c1, ls1 @ [edge_line nodeId childId]))
          = c1 + length (concat (map preorder rest))" and
    b2: "snd (addChildren nodeId rest (c1, ls1 @ [edge_line nodeId childId]))
          = (ls1 @ [edge_line nodeId childId]) @ body2" and
    m2: "\<forall>k < length (concat (map preorder rest)).
          label_line (''n'' @ dec (c1 + k)) (node_type (concat (map preorder rest) ! k)) \<in> set body2"
    by blast
  let ?body = "body1 @ [edge_line nodeId childId] @ body2"
  have "\<forall>k < length (concat (map preorder (child # rest))).
          label_line (''n'' @ dec (c + k)) (node_type (concat (map preorder (child # rest)) ! k)) \<in> set ?body"
  proof (intro allI impI)
    fix k assume k: "k < length (concat (map preorder (child # rest)))"
    show "label_line (''n'' @ dec (c + k)) (node_type (concat (map preorder (child # rest)) ! k)) \<in> set ?body"
    proof (cases "k < length (preorder child)")
      case True
      then show ?thesis using m1 by (simp add: nth_append)
    next
      case False
      define j where "j = k - length (preorder child)"
      have kj: "k = length (preorder child) + j" using False by (simp add: j_def)
      have j: "j < length (concat (map preorder rest))" using k kj by simp
      have ck: "c + k = c1 + j" using kj c1 by simp
      have idx: "concat (map preorder (child # rest)) ! k = concat (map preorder rest) ! j"
        using kj by (simp add: nth_append)
      have "label_line (''n'' @ dec (c1 + j)) (node_type (concat (map preorder rest) ! j)) \<in> set body2"
        using m2 j by blast
      then show ?thesis unfolding idx ck by simp
    qed
  qed
  then show ?case using r c1 b1 c2 b2 by (simp add: add.assoc)
qed

lemma treeToDot_lines_verbatim:
  "k < length (preorder tr) \<Longrightarrow>
   label_line (''n'' @ dec k) (node_type (preorder tr ! k)) \<in> set (treeToDot_lines tr)"
  using addNode_lines [of tr 0 "[''digraph G {'']"]
  by (auto simp: treeToDot_lines_def)

lemma nodeToDot_lines:
  "fst (nodeToDot n par (c, ls)) = c + length (preorder n)
   \<and> (\<exists>body. snd (nodeToDot n par (c, ls)) = ls @ body
        \<and> (\<forall>k < length (preorder n).
              ''  '' @ label_line (dec (c + k)) (node_type (preorder n ! k)) \<in> set body))"
  and nodeToDot_children_lines:
  "fst (nodeToDot_children cs par (c, ls)) = c + length (concat (map preorder cs))
   \<and> (\<exists>body. snd (nodeToDot_children cs par (c, ls)) = ls @ body
        \<and> (\<forall>k < length (concat (map preorder cs)).
              ''  '' @ label_line (dec (c + k)) (node_type (concat (map preorder cs) ! k)) \<in> set body))"
proof (induction n par "(c, ls)" and cs par "(c, ls)" arbitrary: c ls and c ls rule: nodeToDot_nodeToDot_children.induct)
  case (1 ty cs parentId nextId lines)
  let ?l0 = "''  '' @ label_line (dec nextId) ty"
  let ?lines2 = "(if parentId \<noteq> - 1 then (lines @ [?l0]) @ [''  '' @ edge_line (show_int parentId) (dec nextId)] else lines @ [?l0])"
  obtain pre where pre: "?lines2 = lines @ pre" "?l0 \<in> set pre"
    by (cases "parentId \<noteq> - 1") auto
  from 1 [OF refl refl refl] obtain body where
    c: "fst (nodeToDot_children cs (int nextId) (nextId + 1, ?lines2))
        = nextId + 1 + length (concat (map preorder cs))" and
    b: "snd (nodeToDot_children cs (int nextId) (nextId + 1, ?lines2)) = ?lines2 @ body" and
    m: "\<forall>k < length (concat (map preorder cs)).
          ''  '' @ label_line (dec (nextId + 1 + k)) (node_type (concat (map preorder cs) ! k)) \<in> set body"
    by blast
  have "\<forall>k < length (preorder (TSNode ty cs)).
          ''  '' @ label_line (dec (nextId + k)) (node_type (preorder (TSNode ty cs) ! k)) \<in> set (pre @ body)"
  proof (intro allI impI)
    fix k assume k: "k < length (preorder (TSNode ty cs))"
    show "''  '' @ label_line (dec (nextId + k)) (node_type (preorder (TSNode ty cs) ! k)) \<in> set (pre @ body)"
    proof (cases k)
      case 0 then show ?thesis using pre(2) by simp
    next
      case (Suc j)
      then have "j < length (concat (map preorder cs))" using k by simp
      with m have "''  '' @ label_line (dec (nextId + 1 + j)) (node_type (concat (map preorder cs) ! j)) \<in> set body"
        by blast
      then show ?thesis using Suc by simp
    qed
  qed
  moreover have "snd (nodeToDot_children cs (int nextId) (nextId + 1, ?lines2)) = lines @ (pre @ body)"
    unfolding b unfolding pre(1) by simp
  moreover have "fst (nodeToDot_children cs (int nextId) (nextId + 1, ?lines2))
      = nextId + length (preorder (TSNode ty cs))"
    unfolding c by simp
  moreover have eqn: "nodeToDot (TSNode ty cs) parentId (nextId, lines)
      = nodeToDot_children cs (int nextId) (nextId + 1, ?lines2)"
    by (simp add: Let_def)
  ultimately show ?case unfolding eqn by blast
next
  case (2 myId c ls)
  show ?case by simp
next
  case (3 child rest myId c ls)
  obtain c1 ls1 where r: "nodeToDot child myId (c, ls) = (c1, ls1)"
    by (metis prod.exhaust)
  from "3.hyps"(1) r obtain body1 where
    c1: "c1 = c + length (preorder child)" and
    b1: "ls1 = ls @ body1" and
    m1: "\<forall>k < length (preorder child).
          ''  '' @ label_line (dec (c + k)) (node_type (preorder child ! k)) \<in> set body1"
    by auto
  from "3.hyps"(2) [OF r] obtain body2 where
    c2: "fst (nodeToDot_children rest myId (c1, ls1)) = c1 + length (concat (map preorder rest))" and
    b2: "snd (nodeToDot_children rest myId (c1, ls1)) = ls1 @ body2" and
    m2: "\<forall>k < length (concat (map preorder rest)).
          ''  '' @ label_line (dec (c1 + k)) (node_type (concat (map preorder rest) ! k)) \<in> set body2"
    by blast
  let ?body = "body1 @ body2"
  have "\<forall>k < length (concat (map preorder (child # rest))).
          ''  '' @ label_line (dec (c + k)) (node_type (concat (map preorder (child # rest)) ! k)) \<in> set ?body"
  proof (intro allI impI)
    fix k assume k: "k < length (concat (map preorder (child # rest)))"
    show "''  '' @ label_line (dec (c + k)) (node_type (concat (map preorder (child # rest)) ! k)) \<in> set ?body"
    proof (cases "k < length (preorder child)")
      case True
      then show ?thesis using m1 by (simp add: nth_append)
    next
      case False
      define j where "j = k - length (preorder child)"
      have kj: "k = length (preorder child) + j" using False by (simp add: j_def)
      have j: "j < length (concat (map preorder rest))" using k kj by simp
      have ck: "c + k = c1 + j" using kj c1 by simp
      have idx: "concat (map preorder (child # rest)) ! k = concat (map preorder rest) ! j"
        using kj by (simp add: nth_append)
      have "''  '' @ label_line (dec (c1 + j)) (node_type (concat (map preorder rest) ! j)) \<in> set body2"
        using m2 j by blast
      then show ?thesis unfolding idx ck by simp
    qed
  qed
  then show ?case using r c1 b1 c2 b2 by (simp add: add.assoc)
qed

lemma ast_dot_lines_verbatim:
  "k < length (preorder tr) \<Longrightarrow>
   ''  '' @ label_line (dec k) (node_type (preorder tr ! k)) \<in> set (ast_dot_lines tr)"
  using nodeToDot_lines [of tr "- 1" 0 "[''digraph AST {'']"]
  by (auto simp: ast_dot_lines_def)

lemma nodeRegex_all_space: "nodeRegex_all (CHR '' '' # s) = nodeRegex_all s"
  by (subst nodeRegex_all.simps) (simp add: nodeRegex_at_def is_idch_def)

lemma dec_idch: "\<forall>c \<in> set (dec n). is_idch c"
  using dec_digits [of n] is_digit_idch by blast

lemma dec_1: "dec 1 = ''1''"
  by (subst dec.simps) (simp add: digit_char_def)

lemma dec_0: "dec 0 = ''0''"
  by (subst dec.simps) (simp add: digit_char_def)

text \<open>
  Claim C2, as stated: a double quote or a backslash in a node's type is escaped in the
  emitted line. Neither serialiser has an escaping step. For a one-node tree whose type
  is \<open>a"b\<close>, the text is \<open>digraph G {\<close>, \<open>n0 [label="a"b"];\<close>, \<open>}\<close>: the line with the
  escaped type is not among the lines, and the text has no backslash in it.
\<close>

theorem treeToDot_does_not_escape:
  "treeToDot (TSNode (''a'' @ [DQ] @ ''b'') []) =
     ''digraph G {'' @ [NL] @ ''n0 [label='' @ [DQ] @ ''a'' @ [DQ] @ ''b'' @ [DQ] @ ''];'' @ [NL] @ ''}''
   \<and> label_line ''n0'' (escape_label (''a'' @ [DQ] @ ''b''))
       \<notin> set (treeToDot_lines (TSNode (''a'' @ [DQ] @ ''b'') []))
   \<and> BSL \<notin> set (treeToDot (TSNode (''a'' @ [DQ] @ ''b'') []))"
  by (simp add: treeToDot_def treeToDot_lines_def dec_0 label_line_def escape_label_def
      DQ_def BSL_def NL_def)

text \<open>
  Claim C2, amended: both serialisers write the type of every node into its line
  unchanged, with no escaping (the node at place \<open>k\<close> of the parent-first walk gets the
  line \<open>nk [label="type"];\<close>, or \<open>k [label="type"];\<close> indented by two spaces). The
  parser's node pattern still reads such a line back as the id and the full type
  whenever the type has no line terminator and no double quote directly followed by
  \<open>]\<close>; a backslash or a lone double quote in the type does not hinder it.
\<close>

theorem serializers_emit_type_verbatim:
  "(\<forall>k < length (preorder t).
      label_line (''n'' @ dec k) (node_type (preorder t ! k)) \<in> set (treeToDot_lines t)
      \<and> ''  '' @ label_line (dec k) (node_type (preorder t ! k)) \<in> set (ast_dot_lines t))
   \<and> (quote_bracket_free ty \<and> (\<forall>c \<in> set ty. \<not> is_lt c) \<longrightarrow>
        nodeRegex_all (label_line (''n'' @ dec j) ty) = [(''n'' @ dec j, ty)]
        \<and> nodeRegex_all (''  '' @ label_line (dec j) ty) = [(dec j, ty)])"
proof (intro conjI allI impI)
  assume h: "quote_bracket_free ty \<and> (\<forall>c \<in> set ty. \<not> is_lt c)"
  have n: "\<forall>c \<in> set (''n'' @ dec j). is_idch c"
    using dec_idch [of j] by (simp add: is_idch_def)
  show "nodeRegex_all (label_line (''n'' @ dec j) ty) = [(''n'' @ dec j, ty)]"
    using h n by (intro nodeRegex_all_label_line) auto
  have "nodeRegex_all (label_line (dec j) ty) = [(dec j, ty)]"
    using h dec_digits [of j] dec_idch [of j] by (intro nodeRegex_all_label_line) auto
  then show "nodeRegex_all (''  '' @ label_line (dec j) ty) = [(dec j, ty)]"
    by (simp add: nodeRegex_all_space)
next
  fix k assume "k < length (preorder t)"
  then show "label_line (''n'' @ dec k) (node_type (preorder t ! k)) \<in> set (treeToDot_lines t)"
    by (rule treeToDot_lines_verbatim)
next
  fix k assume "k < length (preorder t)"
  then show "''  '' @ label_line (dec k) (node_type (preorder t ! k)) \<in> set (ast_dot_lines t)"
    by (rule ast_dot_lines_verbatim)
qed

theorem serializers_emit_type_verbatim_witness:
  "label_line ''n1'' ([DQ] @ ''x'' @ [DQ])
     \<in> set (treeToDot_lines (TSNode (''a'' @ [BSL] @ ''b'') [TSNode ([DQ] @ ''x'' @ [DQ]) []]))
   \<and> ''  '' @ label_line ''1'' ([DQ] @ ''x'' @ [DQ])
     \<in> set (ast_dot_lines (TSNode (''a'' @ [BSL] @ ''b'') [TSNode ([DQ] @ ''x'' @ [DQ]) []]))
   \<and> nodeRegex_all (label_line ''n1'' ([DQ] @ ''x'' @ [DQ])) = [(''n1'', [DQ] @ ''x'' @ [DQ])]
   \<and> nodeRegex_all (''  '' @ label_line ''1'' ([DQ] @ ''x'' @ [DQ])) = [(''1'', [DQ] @ ''x'' @ [DQ])]"
proof -
  let ?t = "TSNode (''a'' @ [BSL] @ ''b'') [TSNode ([DQ] @ ''x'' @ [DQ]) []]"
  let ?ty = "[DQ] @ ''x'' @ [DQ]"
  note T = serializers_emit_type_verbatim [of ?t ?ty 1]
  have k: "(1::nat) < length (preorder ?t)" by simp
  have ty: "quote_bracket_free ?ty \<and> (\<forall>c \<in> set ?ty. \<not> is_lt c)"
    by (simp add: DQ_def is_lt_def NL_def CR_def)
  have nth: "node_type (preorder ?t ! 1) = ?ty" by simp
  from T k have "label_line (''n'' @ dec 1) (node_type (preorder ?t ! 1)) \<in> set (treeToDot_lines ?t)
      \<and> ''  '' @ label_line (dec 1) (node_type (preorder ?t ! 1)) \<in> set (ast_dot_lines ?t)"
    by blast
  moreover from T ty have "nodeRegex_all (label_line (''n'' @ dec 1) ?ty) = [(''n'' @ dec 1, ?ty)]
      \<and> nodeRegex_all (''  '' @ label_line (dec 1) ?ty) = [(dec 1, ?ty)]"
    by blast
  ultimately show ?thesis unfolding nth dec_1 by simp
qed

section \<open>The graph read from a text\<close>

lemma node_ids_Nil [simp]: "node_ids [] = {}"
  by (simp add: node_ids_def)

lemma node_ids_Cons [simp]: "node_ids (p # m) = insert (fst p) (node_ids m)"
  by (simp add: node_ids_def)

lemma endpoints_Nil [simp]: "endpoints [] = {}"
  by (simp add: endpoints_def)

lemma endpoints_Cons [simp]: "endpoints (e # es) = insert (fst e) (insert (snd e) (endpoints es))"
  by (auto simp: endpoints_def)

lemma endpoints_snoc [simp]: "endpoints (es @ [e]) = insert (fst e) (insert (snd e) (endpoints es))"
  by (auto simp: endpoints_def)

lemma distinct_ids_Cons:
  "distinct (map fst (p # m)) = (fst p \<notin> node_ids m \<and> distinct (map fst m))"
  by (simp add: node_ids_def)

lemma map_set_ids: "node_ids (map_set k v m) = insert k (node_ids m)"
proof (induction m)
  case Nil show ?case by simp
next
  case (Cons p m)
  obtain a b where p: "p = (a, b)" by (cases p)
  show ?case unfolding p using Cons.IH by (cases "k = a") (simp_all add: insert_commute)
qed

lemma map_set_absent: "k \<notin> node_ids m \<Longrightarrow> set (map_set k v m) = insert (k, v) (set m)"
proof (induction m)
  case Nil show ?case by simp
next
  case (Cons p m)
  obtain a b where p: "p = (a, b)" by (cases p)
  show ?case using Cons unfolding p by (simp add: insert_commute)
qed

lemma map_set_distinct: "distinct (map fst m) \<Longrightarrow> distinct (map fst (map_set k v m))"
proof (induction m)
  case Nil show ?case by simp
next
  case (Cons p m)
  show ?case
  proof (cases "k = fst p")
    case True
    then show ?thesis using Cons.prems by (cases p) simp
  next
    case False
    have eq: "map_set k v (p # m) = p # map_set k v m" using False by (cases p) auto
    from Cons.prems have a: "fst p \<notin> node_ids m" "distinct (map fst m)"
      unfolding distinct_ids_Cons by auto
    have "fst p \<notin> node_ids (map_set k v m)" using a(1) False by (auto simp: map_set_ids)
    then show ?thesis unfolding eq distinct_ids_Cons using Cons.IH [OF a(2)] by simp
  qed
qed

lemma map_has_ids: "map_has k m = (k \<in> node_ids m)"
  by (simp add: map_has_def node_ids_def)

lemma set_if_absent_ids: "node_ids (set_if_absent x m) = insert x (node_ids m)"
  by (auto simp: set_if_absent_def map_has_ids map_set_ids)

lemma set_if_absent_entries:
  "set (set_if_absent x m) = (if x \<in> node_ids m then set m else insert (x, x) (set m))"
  by (simp add: set_if_absent_def map_has_ids map_set_absent)

lemma set_if_absent_distinct:
  "distinct (map fst m) \<Longrightarrow> distinct (map fst (set_if_absent x m))"
  by (simp add: set_if_absent_def map_set_distinct)

lemma add_endpoints_ids:
  "node_ids (add_endpoints e m) = insert (snd e) (insert (fst e) (node_ids m))"
  by (simp only: add_endpoints_def set_if_absent_ids)

lemma add_endpoints_entries:
  "set (add_endpoints e m) = set m \<union> {(x, x) | x. (x = fst e \<or> x = snd e) \<and> x \<notin> node_ids m}"
  unfolding add_endpoints_def set_if_absent_entries set_if_absent_ids by auto

lemma add_endpoints_distinct: "distinct (map fst m) \<Longrightarrow> distinct (map fst (add_endpoints e m))"
  by (simp add: add_endpoints_def set_if_absent_distinct)

lemma fold_edges_split:
  "fold (\<lambda>(src, dst) (edges, m). (edges @ [(src, dst)], set_if_absent dst (set_if_absent src m))) es (acc, m0)
   = (acc @ es, fold add_endpoints es m0)"
  by (induction es arbitrary: acc m0) (auto simp: add_endpoints_def)

lemma fold_endpoints_ids:
  "node_ids (fold add_endpoints es m0) = node_ids m0 \<union> endpoints es"
proof (induction es arbitrary: m0)
  case Nil show ?case by simp
next
  case (Cons e es)
  show ?case by (simp only: fold_simps Cons.IH add_endpoints_ids endpoints_Cons) auto
qed

lemma fold_endpoints_entries:
  "set (fold add_endpoints es m0) = set m0 \<union> {(x, x) | x. x \<in> endpoints es \<and> x \<notin> node_ids m0}"
proof (induction es arbitrary: m0)
  case Nil show ?case by simp
next
  case (Cons e es)
  show ?case
    by (simp only: fold_simps Cons.IH add_endpoints_ids add_endpoints_entries endpoints_Cons) auto
qed

lemma fold_endpoints_distinct:
  "distinct (map fst m0) \<Longrightarrow> distinct (map fst (fold add_endpoints es m0))"
  by (induction es arbitrary: m0) (auto simp: add_endpoints_distinct)

lemma fold_decl_ids:
  "node_ids (fold (\<lambda>(i, l) m. map_set i l m) ds m0) = node_ids m0 \<union> node_ids ds"
proof (induction ds arbitrary: m0)
  case Nil show ?case by simp
next
  case (Cons d ds)
  obtain i l where d: "d = (i, l)" by (cases d)
  show ?case unfolding d by (simp add: Cons.IH map_set_ids)
qed

lemma fold_decl_distinct:
  "distinct (map fst m0) \<Longrightarrow> distinct (map fst (fold (\<lambda>(i, l) m. map_set i l m) ds m0))"
proof (induction ds arbitrary: m0)
  case Nil then show ?case by simp
next
  case (Cons d ds)
  obtain i l where d: "d = (i, l)" by (cases d)
  show ?case unfolding d using Cons.prems by (simp add: Cons.IH map_set_distinct)
qed

lemma parseDotToElements_eq:
  "parseDotToElements dot =
     (fold add_endpoints (edgeRegex_all dot) (fold (\<lambda>(i, l) m. map_set i l m) (nodeRegex_all dot) []),
      edgeRegex_all dot)"
  by (simp add: parseDotToElements_def fold_edges_split)

lemma parseDotToElements_invariant:
  "snd (parseDotToElements dot) = edgeRegex_all dot
   \<and> node_ids (fst (parseDotToElements dot)) = node_ids (nodeRegex_all dot) \<union> endpoints (edgeRegex_all dot)
   \<and> distinct (map fst (fst (parseDotToElements dot)))
   \<and> (\<forall>x \<in> endpoints (edgeRegex_all dot).
         x \<notin> node_ids (nodeRegex_all dot) \<longrightarrow> (x, x) \<in> set (fst (parseDotToElements dot)))"
proof -
  let ?m1 = "fold (\<lambda>(i, l) m. map_set i l m) (nodeRegex_all dot) []"
  have k1: "node_ids ?m1 = node_ids (nodeRegex_all dot)"
    using fold_decl_ids [of "nodeRegex_all dot" "[]"] by simp
  have d1: "distinct (map fst ?m1)" by (rule fold_decl_distinct) simp
  show ?thesis
    unfolding parseDotToElements_eq fst_conv snd_conv fold_endpoints_ids fold_endpoints_entries k1
    using fold_endpoints_distinct [OF d1] by auto
qed

lemma set_add_set: "set (set_add x xs) = insert x (set xs)"
  by (auto simp: set_add_def)

lemma set_add_distinct: "distinct xs \<Longrightarrow> distinct (set_add x xs)"
  by (auto simp: set_add_def)

lemma quoted_step_invariant:
  "endpoints (snd st) \<subseteq> set (fst st) \<and> distinct (fst st) \<Longrightarrow>
   endpoints (snd (quoted_step l st)) \<subseteq> set (fst (quoted_step l st)) \<and> distinct (fst (quoted_step l st))"
  by (auto simp: quoted_step_def set_add_set set_add_distinct split: option.splits)

lemma fold_quoted_step:
  "endpoints (snd st) \<subseteq> set (fst st) \<and> distinct (fst st) \<Longrightarrow>
   endpoints (snd (fold quoted_step ls st)) \<subseteq> set (fst (fold quoted_step ls st))
   \<and> distinct (fst (fold quoted_step ls st))"
proof (induction ls arbitrary: st)
  case Nil then show ?case by simp
next
  case (Cons l ls)
  show ?case using Cons.IH [OF quoted_step_invariant [OF Cons.prems]] by simp
qed

lemma quoted_extract_invariant:
  "endpoints (snd (quoted_extract t)) \<subseteq> set (fst (quoted_extract t)) \<and> distinct (fst (quoted_extract t))"
  unfolding quoted_extract_def by (rule fold_quoted_step) simp

lemma map_fst_diag: "map fst (map (\<lambda>x. (x, x)) xs) = xs"
  by (induction xs) auto

lemma node_ids_diag: "node_ids (map (\<lambda>x. (x, x)) xs) = set xs"
  by (induction xs) auto

text \<open>
  Claim C5: in the graph read from any text, by either branch, every source and target
  of an edge is the id of a node, and ids are unique. An endpoint that no node
  declaration of the text names (in the quoted branch there are no declarations) is a
  node whose label is its own id.
\<close>

theorem graph_of_text_edges_closed:
  "endpoints (snd (graph_of_text t)) \<subseteq> node_ids (fst (graph_of_text t))
   \<and> distinct (map fst (fst (graph_of_text t)))
   \<and> (\<forall>x \<in> endpoints (snd (graph_of_text t)).
         quotedMatch t \<or> x \<notin> node_ids (nodeRegex_all t) \<longrightarrow> (x, x) \<in> set (fst (graph_of_text t)))"
proof (cases "quotedMatch t")
  case True
  have g: "graph_of_text t = (map (\<lambda>x. (x, x)) (fst (quoted_extract t)), snd (quoted_extract t))"
    using True by (simp add: graph_of_text_def)
  show ?thesis
    unfolding g fst_conv snd_conv map_fst_diag node_ids_diag
    using quoted_extract_invariant [of t] by auto
next
  case False
  have g: "graph_of_text t = parseDotToElements t"
    using False by (simp add: graph_of_text_def)
  show ?thesis
    unfolding g using False parseDotToElements_invariant [of t] by auto
qed

text \<open>The text \<open>n0 [label="x"]; n0 -> n1;\<close>: \<open>n1\<close> is declared nowhere and becomes a node labelled \<open>n1\<close>.\<close>

theorem graph_of_text_edges_closed_witness:
  "(''n1'', ''n1'') \<in> set (fst (graph_of_text (label_line ''n0'' ''x'' @ '' n0 -> n1;'')))
   \<and> endpoints (snd (graph_of_text (label_line ''n0'' ''x'' @ '' n0 -> n1;'')))
       \<subseteq> node_ids (fst (graph_of_text (label_line ''n0'' ''x'' @ '' n0 -> n1;'')))"
proof -
  let ?t = "label_line ''n0'' ''x'' @ '' n0 -> n1;''"
  have g: "graph_of_text ?t = ([(''n0'', ''x''), (''n1'', ''n1'')], [(''n0'', ''n1'')])"
    by code_simp
  have d: "nodeRegex_all ?t = [(''n0'', ''x'')]"
    by code_simp
  have e: "''n1'' \<in> endpoints (snd (graph_of_text ?t))" by (simp add: g)
  have n: "''n1'' \<notin> node_ids (nodeRegex_all ?t)" by (simp add: d)
  from graph_of_text_edges_closed [of ?t] e n show ?thesis by blast
qed

section \<open>Radial layout\<close>

lemma bce_radius_clamp: "bce_radius nodes = clamp (40 * int (length nodes)) 120 300"
  by (auto simp: bce_radius_def bce_n_def clamp_def max_def min_def)

lemma bce_n_max: "bce_n nodes = max 1 (length nodes)"
  by (cases nodes) (simp_all add: bce_n_def)

text \<open>
  The labelled-node branch does what the specification says of the radial layout: the
  radius is clamp(40 * nodeCount, 120, 300), the angle step is 2 pi / max(1, nodeCount),
  and node \<open>i\<close> is put at the centre plus the radius times the cosine and the sine of
  \<open>i\<close> times the angle step.
\<close>

lemma buildCytoscapeElements_layout:
  "fst (buildCytoscapeElements (nodes, edges)) =
     map (\<lambda>(i, node).
            \<lparr> el_id = fst node, el_name = snd node,
              el_x = Plus (Num 400) (Times (Num (clamp (40 * int (length nodes)) 120 300))
                       (MathCos (Times (Num (int i))
                          (Over (Times (Num 2) MathPI) (Num (int (max 1 (length nodes)))))))),
              el_y = Plus (Num 250) (Times (Num (clamp (40 * int (length nodes)) 120 300))
                       (MathSin (Times (Num (int i))
                          (Over (Times (Num 2) MathPI) (Num (int (max 1 (length nodes)))))))) \<rparr>)
         (enumerate 0 nodes)"
  by (simp add: buildCytoscapeElements_def place_def bce_radius_clamp bce_angleStep_def bce_n_max)

text \<open>
  The quoted branch of \<open>init\<close> uses the same formula and angle step with the radius 200,
  whatever the number of nodes.
\<close>

lemma quoted_elements_layout:
  "fst (quoted_elements (nodesArr, edges)) =
     map (\<lambda>(i, x).
            \<lparr> el_id = x, el_name = x,
              el_x = Plus (Num 400) (Times (Num 200)
                       (MathCos (Times (Num (int i))
                          (Over (Times (Num 2) MathPI) (Num (int (max 1 (length nodesArr)))))))),
              el_y = Plus (Num 250) (Times (Num 200)
                       (MathSin (Times (Num (int i))
                          (Over (Times (Num 2) MathPI) (Num (int (max 1 (length nodesArr)))))))) \<rparr>)
         (enumerate 0 nodesArr)"
  by (simp add: quoted_elements_def place_def quoted_angleStep_def)

lemma one_loop_quoted: "quotedMatch one_loop"
  by code_simp

lemma one_loop_extract: "quoted_extract one_loop = ([''a''], [(''a'', ''a'')])"
  by code_simp

lemma one_loop_graph: "graph_of_text one_loop = ([(''a'', ''a'')], [(''a'', ''a'')])"
  by code_simp

text \<open>
  Claim C6, in every radial layout the radius is clamp(40 * nodeCount, 120, 300), so
  that one node alone is placed with the radius 120: the code at the text
  \<open>"a" -> "a";\<close>. Its graph has one node and the clamp gives 120. The viewer lays the
  text out in the quoted branch of \<open>init\<close>, where the radius is the constant 200: the
  coordinates of the node are \<open>400 + 200 * Math.cos(0 * angleStep)\<close> and
  \<open>250 + 200 * Math.sin(0 * angleStep)\<close>. \<open>buildCytoscapeElements\<close>, the other branch of
  the same conditional, places the node of the same graph with the radius 120.
\<close>

theorem quoted_layout_radius_200:
  "length (fst (graph_of_text one_loop)) = 1
   \<and> clamp (40 * int (length (fst (graph_of_text one_loop)))) 120 300 = 120
   \<and> fst (elementsData one_loop) =
       [\<lparr> el_id = ''a'', el_name = ''a'',
          el_x = Plus (Num 400) (Times (Num 200)
                   (MathCos (Times (Num 0) (Over (Times (Num 2) MathPI) (Num 1))))),
          el_y = Plus (Num 250) (Times (Num 200)
                   (MathSin (Times (Num 0) (Over (Times (Num 2) MathPI) (Num 1))))) \<rparr>]
   \<and> fst (buildCytoscapeElements (graph_of_text one_loop)) =
       [\<lparr> el_id = ''a'', el_name = ''a'',
          el_x = Plus (Num 400) (Times (Num 120)
                   (MathCos (Times (Num 0) (Over (Times (Num 2) MathPI) (Num 1))))),
          el_y = Plus (Num 250) (Times (Num 120)
                   (MathSin (Times (Num 0) (Over (Times (Num 2) MathPI) (Num 1))))) \<rparr>]"
  by (simp add: one_loop_graph elementsData_def one_loop_quoted one_loop_extract quoted_elements_def
      buildCytoscapeElements_def place_def clamp_def quoted_angleStep_def bce_radius_def
      bce_angleStep_def bce_n_def)

section \<open>Choice of the dialect\<close>

lemma quoted_name_complete:
  "x \<noteq> [] \<Longrightarrow> DQ \<notin> set x \<Longrightarrow> quoted_name (DQ # x @ DQ # r) = Some (x, r)"
proof -
  assume x: "x \<noteq> []" "DQ \<notin> set x"
  have all: "\<forall>c \<in> set x. c \<noteq> DQ" using x(2) by auto
  then have t: "takeWhile (\<lambda>d. d \<noteq> DQ) (x @ DQ # r) = x"
    by (simp add: takeWhile_tail)
  from all have d: "dropWhile (\<lambda>d. d \<noteq> DQ) (x @ DQ # r) = DQ # r"
    by (simp add: dropWhile_append3)
  show ?thesis using x(1) by (simp add: quoted_name_def t d)
qed

lemma quoted_name_sound:
  "quoted_name s = Some (x, r) \<Longrightarrow> s = DQ # x @ DQ # r \<and> x \<noteq> [] \<and> DQ \<notin> set x"
proof -
  assume a: "quoted_name s = Some (x, r)"
  then obtain cs where s: "s = DQ # cs" and ne: "takeWhile (\<lambda>d. d \<noteq> DQ) cs \<noteq> []"
    by (cases s) (auto simp: quoted_name_def split: if_splits)
  from a s ne obtain q where d: "dropWhile (\<lambda>d. d \<noteq> DQ) cs = q # r" and x: "x = takeWhile (\<lambda>d. d \<noteq> DQ) cs"
    by (auto simp: quoted_name_def split: list.splits)
  have "q = DQ" using hd_dropWhile [of "\<lambda>d. d \<noteq> DQ" cs] d by simp
  then have "cs = x @ DQ # r" using d x takeWhile_dropWhile_id [of "\<lambda>d. d \<noteq> DQ" cs] by simp
  moreover have "DQ \<notin> set x" unfolding x by (auto dest: set_takeWhileD)
  ultimately show ?thesis using s ne x by simp
qed

lemma skip_space_complete:
  "\<forall>c \<in> set ws. is_space c \<Longrightarrow> \<not> is_space c \<Longrightarrow> skip_space (ws @ c # r) = c # r"
  by (simp add: skip_space_def dropWhile_append3)

lemma skip_space_sound: "\<exists>ws. s = ws @ skip_space s \<and> (\<forall>c \<in> set ws. is_space c)"
proof
  show "s = takeWhile is_space s @ skip_space s \<and> (\<forall>c \<in> set (takeWhile is_space s). is_space c)"
    by (auto simp: skip_space_def dest: set_takeWhileD)
qed

lemma strip_prefix_complete: "strip_prefix p (p @ r) = Some r"
  by (induction p) auto

lemma not_space_simps: "\<not> is_space (CHR ''-'')" "\<not> is_space DQ"
  by (simp_all add: is_space_def DQ_def)

lemma quotedRegex_at_complete:
  assumes "x \<noteq> []" "DQ \<notin> set x" "y \<noteq> []" "DQ \<notin> set y"
    "\<forall>c \<in> set ws1. is_space c" "\<forall>c \<in> set ws2. is_space c"
  shows "quotedRegex_at (quoted_edge_text x ws1 ws2 y @ post) = Some (x, y, post)"
proof -
  have 1: "quoted_name (DQ # x @ DQ # (ws1 @ ''->'' @ ws2 @ DQ # y @ DQ # post))
      = Some (x, ws1 @ ''->'' @ ws2 @ DQ # y @ DQ # post)"
    using assms(1,2) by (rule quoted_name_complete)
  have 2: "skip_space (ws1 @ ''->'' @ ws2 @ DQ # y @ DQ # post) = ''->'' @ ws2 @ DQ # y @ DQ # post"
    using skip_space_complete [OF assms(5) not_space_simps(1)] by simp
  have 3: "strip_prefix ''->'' (''->'' @ ws2 @ DQ # y @ DQ # post) = Some (ws2 @ DQ # y @ DQ # post)"
    by (rule strip_prefix_complete)
  have 4: "skip_space (ws2 @ DQ # y @ DQ # post) = DQ # y @ DQ # post"
    using skip_space_complete [OF assms(6) not_space_simps(2)] by simp
  have 5: "quoted_name (DQ # y @ DQ # post) = Some (y, post)"
    using assms(3,4) by (rule quoted_name_complete)
  have "quoted_edge_text x ws1 ws2 y @ post = DQ # x @ DQ # (ws1 @ ''->'' @ ws2 @ DQ # y @ DQ # post)"
    by (simp add: quoted_edge_text_def)
  then show ?thesis
    unfolding quotedRegex_at_def by (simp only: 1 2 3 4 5 option.case prod.case)
qed

lemma quotedRegex_at_sound:
  assumes "quotedRegex_at s = Some (x, y, r)"
  shows "\<exists>ws1 ws2. s = quoted_edge_text x ws1 ws2 y @ r
        \<and> x \<noteq> [] \<and> DQ \<notin> set x \<and> y \<noteq> [] \<and> DQ \<notin> set y
        \<and> (\<forall>c \<in> set ws1. is_space c) \<and> (\<forall>c \<in> set ws2. is_space c)"
proof -
  from assms obtain r0 r1 where
    1: "quoted_name s = Some (x, r0)" and
    2: "strip_prefix ''->'' (skip_space r0) = Some r1" and
    3: "quoted_name (skip_space r1) = Some (y, r)"
    by (auto simp: quotedRegex_at_def split: option.splits)
  obtain ws1 where w1: "r0 = ws1 @ skip_space r0" "\<forall>c \<in> set ws1. is_space c"
    using skip_space_sound [of r0] by blast
  obtain ws2 where w2: "r1 = ws2 @ skip_space r1" "\<forall>c \<in> set ws2. is_space c"
    using skip_space_sound [of r1] by blast
  note a = quoted_name_sound [OF 1]
  note b = strip_prefix_sound [OF 2]
  note c = quoted_name_sound [OF 3]
  have "r0 = ws1 @ ''->'' @ r1" using w1(1) b by simp
  moreover have "r1 = ws2 @ DQ # y @ DQ # r" using w2(1) c by simp
  ultimately have "s = DQ # x @ DQ # ws1 @ ''->'' @ ws2 @ DQ # y @ DQ # r"
    using a by simp
  then have "s = quoted_edge_text x ws1 ws2 y @ r" by (simp add: quoted_edge_text_def)
  then show ?thesis using a c w1(2) w2(2) by blast
qed

lemma quotedRegex_search_complete:
  assumes "x \<noteq> []" "DQ \<notin> set x" "y \<noteq> []" "DQ \<notin> set y"
    "\<forall>c \<in> set ws1. is_space c" "\<forall>c \<in> set ws2. is_space c"
  shows "quotedRegex_search (pre @ quoted_edge_text x ws1 ws2 y @ post) \<noteq> None"
proof (induction pre)
  case Nil
  have "quoted_edge_text x ws1 ws2 y @ post \<noteq> []" by (simp add: quoted_edge_text_def)
  then obtain c cs where e: "quoted_edge_text x ws1 ws2 y @ post = c # cs" by (cases "quoted_edge_text x ws1 ws2 y @ post") auto
  show ?case using quotedRegex_at_complete [OF assms, of post] unfolding append_Nil e by simp
next
  case (Cons c pre)
  then show ?case by (auto split: option.splits)
qed

lemma quotedRegex_search_sound:
  "quotedRegex_search s = Some (x, y) \<Longrightarrow> has_quoted_edge s"
proof (induction s)
  case Nil then show ?case by simp
next
  case (Cons c cs)
  show ?case
  proof (cases "quotedRegex_at (c # cs)")
    case None
    then have "quotedRegex_search cs = Some (x, y)" using Cons.prems by simp
    then have "has_quoted_edge cs" by (rule Cons.IH)
    then obtain pre x ws1 ws2 y post where
      "cs = pre @ quoted_edge_text x ws1 ws2 y @ post
        \<and> x \<noteq> [] \<and> DQ \<notin> set x \<and> y \<noteq> [] \<and> DQ \<notin> set y
        \<and> (\<forall>c \<in> set ws1. is_space c) \<and> (\<forall>c \<in> set ws2. is_space c)"
      unfolding has_quoted_edge_def by blast
    then have "c # cs = (c # pre) @ quoted_edge_text x ws1 ws2 y @ post
        \<and> x \<noteq> [] \<and> DQ \<notin> set x \<and> y \<noteq> [] \<and> DQ \<notin> set y
        \<and> (\<forall>c \<in> set ws1. is_space c) \<and> (\<forall>c \<in> set ws2. is_space c)" by simp
    then show ?thesis unfolding has_quoted_edge_def by blast
  next
    case (Some m)
    obtain x' y' r where m: "m = (x', y', r)" by (cases m)
    from quotedRegex_at_sound [OF Some [unfolded m]] obtain ws1 ws2 where
      "c # cs = [] @ quoted_edge_text x' ws1 ws2 y' @ r
        \<and> x' \<noteq> [] \<and> DQ \<notin> set x' \<and> y' \<noteq> [] \<and> DQ \<notin> set y'
        \<and> (\<forall>c \<in> set ws1. is_space c) \<and> (\<forall>c \<in> set ws2. is_space c)" by auto
    then show ?thesis unfolding has_quoted_edge_def by blast
  qed
qed

lemma quotedMatch_iff: "quotedMatch t = has_quoted_edge t"
proof
  assume "quotedMatch t"
  then obtain x y where "quotedRegex_search t = Some (x, y)"
    by (auto simp: quotedMatch_def)
  then show "has_quoted_edge t" by (rule quotedRegex_search_sound)
next
  assume "has_quoted_edge t"
  then show "quotedMatch t"
    unfolding has_quoted_edge_def quotedMatch_def
    using quotedRegex_search_complete by blast
qed

lemma buildCytoscapeElements_empty: "buildCytoscapeElements ([], []) = ([], [])"
  by (simp add: buildCytoscapeElements_def edge_elements_def)

lemma parseDotToElements_empty:
  "edgeRegex_all t = [] \<Longrightarrow> nodeRegex_all t = [] \<Longrightarrow> parseDotToElements t = ([], [])"
  by (simp add: parseDotToElements_def)

text \<open>
  Claim C4: the parser has two branches and always takes exactly one. A text that
  contains a quoted edge anywhere is read by the quoted branch, whatever else it
  contains; any other text is read by \<open>parseDotToElements\<close>. A text with no quoted edge,
  no match of the edge pattern and no match of the node pattern gives no nodes and no
  edges (and no elements to draw). The functions are total: no text makes them fail.
\<close>

theorem dialect_selection:
  "(has_quoted_edge t \<longrightarrow>
      graph_of_text t = (map (\<lambda>x. (x, x)) (fst (quoted_extract t)), snd (quoted_extract t))
      \<and> elementsData t = quoted_elements (quoted_extract t))
   \<and> (\<not> has_quoted_edge t \<longrightarrow>
      graph_of_text t = parseDotToElements t
      \<and> elementsData t = buildCytoscapeElements (parseDotToElements t))
   \<and> (\<not> has_quoted_edge t \<and> edgeRegex_all t = [] \<and> nodeRegex_all t = [] \<longrightarrow>
      graph_of_text t = ([], []) \<and> elementsData t = ([], []))"
  by (simp add: graph_of_text_def elementsData_def quotedMatch_iff parseDotToElements_empty
      buildCytoscapeElements_empty)

text \<open>
  A text with a node declaration on the first line and a quoted edge on the second is
  read as the quoted edge alone; \<open>digraph G { }\<close> is read as the empty graph.
\<close>

theorem dialect_selection_witness:
  "graph_of_text (label_line ''n0'' ''x'' @ [NL] @ quoted_edge_text ''main.py'' '' '' '' '' ''logger.py'' @ '';'')
     = ([(''main.py'', ''main.py''), (''logger.py'', ''logger.py'')], [(''main.py'', ''logger.py'')])
   \<and> graph_of_text ''digraph G { }'' = ([], [])
   \<and> elementsData ''digraph G { }'' = ([], [])"
proof -
  let ?t1 = "label_line ''n0'' ''x'' @ [NL] @ quoted_edge_text ''main.py'' '' '' '' '' ''logger.py'' @ '';''"
  let ?t2 = "''digraph G { }''"
  have "?t1 = (label_line ''n0'' ''x'' @ [NL]) @ quoted_edge_text ''main.py'' '' '' '' '' ''logger.py'' @ '';''
      \<and> ''main.py'' \<noteq> [] \<and> DQ \<notin> set ''main.py'' \<and> ''logger.py'' \<noteq> [] \<and> DQ \<notin> set ''logger.py''
      \<and> (\<forall>c \<in> set '' ''. is_space c) \<and> (\<forall>c \<in> set '' ''. is_space c)"
    by (simp add: DQ_def is_space_def)
  then have h1: "has_quoted_edge ?t1" unfolding has_quoted_edge_def by blast
  have "\<not> quotedMatch ?t2" by code_simp
  then have h2: "\<not> has_quoted_edge ?t2" by (simp add: quotedMatch_iff)
  have e: "edgeRegex_all ?t2 = []" by code_simp
  have n: "nodeRegex_all ?t2 = []" by code_simp
  have q: "quoted_extract ?t1 = ([''main.py'', ''logger.py''], [(''main.py'', ''logger.py'')])"
    by code_simp
  from dialect_selection [of ?t1] h1
  have "graph_of_text ?t1 = (map (\<lambda>x. (x, x)) (fst (quoted_extract ?t1)), snd (quoted_extract ?t1))"
    by blast
  then have 1: "graph_of_text ?t1
     = ([(''main.py'', ''main.py''), (''logger.py'', ''logger.py'')], [(''main.py'', ''logger.py'')])"
    unfolding q by simp
  from dialect_selection [of ?t2] h2 e n
  have 2: "graph_of_text ?t2 = ([], []) \<and> elementsData ?t2 = ([], [])" by blast
  show ?thesis using 1 2 by blast
qed

section \<open>Labels from comment lines\<close>

lemma char_class_facts:
  "is_lt c \<Longrightarrow> is_space c" "is_lt c \<Longrightarrow> \<not> is_digit c" "is_digit c \<Longrightarrow> \<not> is_space c"
  "\<not> is_space (CHR ''/'')" "\<not> is_digit (CHR ''/'')" "\<not> is_lt (CHR ''/'')"
  "\<not> is_space (CHR '':'')" "\<not> is_digit (CHR '':'')" "\<not> is_lt (CHR '':'')"
  by (auto simp: is_lt_def is_space_def is_digit_def NL_def CR_def)

lemma ends_lt_has: "ends_lt s \<Longrightarrow> \<exists>x \<in> set s. is_lt x"
  unfolding ends_lt_def using last_in_set by blast

lemma ends_lt_dropWhile:
  "ends_lt s \<Longrightarrow> dropWhile P s \<noteq> [] \<Longrightarrow> ends_lt (dropWhile P s)"
proof -
  assume a: "ends_lt s" and b: "dropWhile P s \<noteq> []"
  have "s = takeWhile P s @ dropWhile P s" by simp
  then have "last s = last (dropWhile P s)" using b by (metis last_appendR)
  then show ?thesis using a b by (simp add: ends_lt_def)
qed

lemma dropWhile_nonempty: "x \<in> set s \<Longrightarrow> \<not> P x \<Longrightarrow> dropWhile P s \<noteq> []"
  by (induction s) auto

lemma ends_lt_tl: "ends_lt (c # s) \<Longrightarrow> s \<noteq> [] \<Longrightarrow> ends_lt s"
  by (simp add: ends_lt_def)

lemma strip_prefix_append:
  "strip_prefix p s = Some r \<Longrightarrow> strip_prefix p (s @ t) = Some (r @ t)"
  by (induction p s rule: strip_prefix.induct) (auto split: if_splits)

lemma strip_prefix_one:
  "strip_prefix [a] (c # s) = (if a = c then Some s else None)"
  by simp

lemma skip_space_fresh: "fresh_start r \<Longrightarrow> skip_space r = r"
  by (cases r) (auto simp: fresh_start_def skip_space_def)

lemma takeWhile_digit_fresh: "fresh_start r \<Longrightarrow> takeWhile is_digit r = []"
  by (cases r) (auto simp: fresh_start_def)

lemma commentRegex_at_append:
  assumes e: "ends_lt s" and f: "fresh_start r"
  shows "commentRegex_at (s @ r) =
      (case commentRegex_at s of None \<Rightarrow> None | Some (i, p, rest) \<Rightarrow> Some (i, p, rest @ r))
    \<and> (\<forall>i p rest. commentRegex_at s = Some (i, p, rest) \<longrightarrow> ends_lt rest)"
proof (cases "strip_prefix ''//'' s")
  case None
  have "strip_prefix ''//'' (s @ r) = None"
  proof (cases s)
    case Nil then show ?thesis using e by (simp add: ends_lt_def)
  next
    case (Cons a s')
    show ?thesis
    proof (cases s')
      case Nil
      then have "is_lt a" using e Cons by (simp add: ends_lt_def)
      then have "a \<noteq> CHR ''/''" using char_class_facts(6) by auto
      then show ?thesis using Cons by simp
    next
      case (Cons b s'')
      then show ?thesis using None \<open>s = a # s'\<close> by (auto split: if_splits)
    qed
  qed
  then show ?thesis using None by (simp add: commentRegex_at_def)
next
  case (Some s1)
  have s: "s = ''//'' @ s1" using Some by (rule strip_prefix_sound)
  have sp: "strip_prefix ''//'' (s @ r) = Some (s1 @ r)" using Some by (rule strip_prefix_append)
  have s1: "ends_lt s1"
  proof -
    have "s1 \<noteq> []" using e s char_class_facts(6) by (auto simp: ends_lt_def)
    then show ?thesis using e s by (simp add: ends_lt_def)
  qed
  show ?thesis
  proof (cases "skip_space s1 = []")
    case True
    then have "\<forall>x \<in> set s1. is_space x"
      unfolding skip_space_def by (metis dropWhile_eq_Nil_conv)
    then have "skip_space (s1 @ r) = skip_space r"
      by (simp add: skip_space_def dropWhile_append2)
    then have "takeWhile is_digit (skip_space (s1 @ r)) = []"
      using f by (simp add: skip_space_fresh takeWhile_digit_fresh)
    then show ?thesis using True Some sp by (simp add: commentRegex_at_def Let_def)
  next
    case False
    define s2 where "s2 = skip_space s1"
    have s2: "ends_lt s2" using ends_lt_dropWhile [OF s1, of is_space] False
      by (simp add: s2_def skip_space_def)
    obtain y where y: "y \<in> set s1" "\<not> is_space y"
      using False unfolding skip_space_def by (metis dropWhile_eq_Nil_conv)
    have k2: "skip_space (s1 @ r) = s2 @ r"
      using y by (simp add: s2_def skip_space_def dropWhile_append1)
    obtain z where z: "z \<in> set s2" "is_lt z" using ends_lt_has [OF s2] by blast
    then have zd: "\<not> is_digit z" using char_class_facts(2) by blast
    have t2: "takeWhile is_digit (s2 @ r) = takeWhile is_digit s2"
      using z(1) zd by (rule takeWhile_append1)
    have d2: "dropWhile is_digit (s2 @ r) = dropWhile is_digit s2 @ r"
      using z(1) zd by (rule dropWhile_append1)
    define s2' where "s2' = dropWhile is_digit s2"
    have ne2': "s2' \<noteq> []" unfolding s2'_def using z(1) zd by (rule dropWhile_nonempty)
    have e2': "ends_lt s2'" unfolding s2'_def using ends_lt_dropWhile [OF s2] ne2' s2'_def by simp
    obtain h s3 where h: "s2' = h # s3" using ne2' by (cases s2') auto
    show ?thesis
    proof (cases "takeWhile is_digit s2 = [] \<or> h \<noteq> CHR '':''")
      case True
      then show ?thesis
        using Some sp k2 t2 d2 h
        by (auto simp: commentRegex_at_def Let_def s2_def [symmetric] s2'_def [symmetric])
    next
      case False
      then have hc: "h = CHR '':''" and nd: "takeWhile is_digit s2 \<noteq> []" by auto
      have "s3 \<noteq> []" using e2' h hc char_class_facts(9) by (auto simp: ends_lt_def)
      then have e3: "ends_lt s3" using e2' h by (simp add: ends_lt_def)
      obtain w where w: "w \<in> set s3" "is_lt w" using ends_lt_has [OF e3] by blast
      have t3: "takeWhile (\<lambda>c. \<not> is_lt c) (s3 @ r) = takeWhile (\<lambda>c. \<not> is_lt c) s3"
        using w by (intro takeWhile_append1 [of w]) auto
      have d3: "dropWhile (\<lambda>c. \<not> is_lt c) (s3 @ r) = dropWhile (\<lambda>c. \<not> is_lt c) s3 @ r"
        using w by (intro dropWhile_append1 [of w]) auto
      have ne3: "dropWhile (\<lambda>c. \<not> is_lt c) s3 \<noteq> []"
        using w by (intro dropWhile_nonempty [of w]) auto
      have er: "ends_lt (dropWhile (\<lambda>c. \<not> is_lt c) s3)"
        using ends_lt_dropWhile [OF e3 ne3] .
      show ?thesis
        using Some sp k2 t2 d2 h hc nd t3 d3 er
        by (simp add: commentRegex_at_def Let_def s2_def [symmetric] s2'_def [symmetric])
    qed
  qed
qed

lemma commentRegex_all_Nil: "commentRegex_all [] = []"
  by (subst commentRegex_all.simps) (simp add: commentRegex_at_def)

lemma commentRegex_all_append:
  "ends_lt s \<Longrightarrow> fresh_start r \<Longrightarrow> commentRegex_all (s @ r) = commentRegex_all s @ commentRegex_all r"
proof (induction s rule: length_induct)
  case (1 s)
  note IH = "1.IH" and e = "1.prems"(1) and f = "1.prems"(2)
  note A = commentRegex_at_append [OF e f]
  show ?case
  proof (cases "commentRegex_at s")
    case None
    then have n: "commentRegex_at (s @ r) = None" using A by simp
    obtain c cs where s: "s = c # cs" using e by (cases s) (auto simp: ends_lt_def)
    show ?thesis
    proof (cases "cs = []")
      case True
      have "commentRegex_all (s @ r) = commentRegex_all r"
        using n s True by (subst commentRegex_all.simps) simp
      moreover have "commentRegex_all s = []"
        using None s True by (subst commentRegex_all.simps) (simp add: commentRegex_all_Nil)
      ultimately show ?thesis by simp
    next
      case False
      then have ecs: "ends_lt cs" using e s by (simp add: ends_lt_def)
      have "commentRegex_all (s @ r) = commentRegex_all (cs @ r)"
        using n s by (subst commentRegex_all.simps) simp
      moreover have "commentRegex_all s = commentRegex_all cs"
        using None s by (subst commentRegex_all.simps) simp
      moreover have "commentRegex_all (cs @ r) = commentRegex_all cs @ commentRegex_all r"
        using IH ecs f s by simp
      ultimately show ?thesis by simp
    qed
  next
    case (Some m)
    obtain i p rest where m: "m = (i, p, rest)" by (cases m)
    have sm: "commentRegex_at (s @ r) = Some (i, p, rest @ r)" using A Some m by simp
    have er: "ends_lt rest" using A Some m by blast
    have lr: "length rest < length s" using Some m commentRegex_at_length by blast
    have "commentRegex_all (s @ r) = (i, p) # commentRegex_all (rest @ r)"
      using sm by (subst commentRegex_all.simps) simp
    moreover have "commentRegex_all s = (i, p) # commentRegex_all rest"
      using Some m by (subst commentRegex_all.simps) simp
    moreover have "commentRegex_all (rest @ r) = commentRegex_all rest @ commentRegex_all r"
      using IH lr er f by simp
    ultimately show ?thesis by simp
  qed
qed

lemma commentRegex_at_line:
  assumes "\<forall>c \<in> set ws. is_space c" "ds \<noteq> []" "\<forall>c \<in> set ds. is_digit c"
    "\<forall>c \<in> set txt. \<not> is_lt c" "post = [] \<or> is_lt (hd post)"
  shows "commentRegex_at (''//'' @ ws @ ds @ '':'' @ txt @ post) = Some (ds, txt, post)"
proof -
  let ?r = "CHR '':'' # txt @ post"
  obtain d ds' where ds: "ds = d # ds'" using assms(2) by (cases ds) auto
  have "\<not> is_space d" using assms(3) ds char_class_facts(3) by auto
  then have 1: "skip_space (ws @ ds @ ?r) = ds @ ?r"
    using assms(1) ds by (simp add: skip_space_def dropWhile_append3)
  have 2: "takeWhile is_digit (ds @ ?r) = ds"
    using assms(3) char_class_facts(8) by (simp add: takeWhile_tail)
  have 3: "dropWhile is_digit (ds @ ?r) = ?r"
    using assms(3) char_class_facts(8) by (simp add: dropWhile_append3)
  have 4: "takeWhile (\<lambda>c. \<not> is_lt c) (txt @ post) = txt"
    using assms(4,5) by (cases post) (auto simp: takeWhile_tail)
  have 5: "dropWhile (\<lambda>c. \<not> is_lt c) (txt @ post) = post"
    using assms(4,5) by (cases post) (auto simp: dropWhile_append3)
  have "commentRegex_at (CHR ''/'' # CHR ''/'' # ws @ ds @ ?r) = Some (ds, txt, post)"
    unfolding commentRegex_at_def using assms(2)
    by (simp only: strip_prefix.simps 1 2 3 4 5 Let_def if_True if_False option.case refl prod.case)
  then show ?thesis by simp
qed

lemma fresh_start_slash: "fresh_start (CHR ''/'' # r)"
  by (simp add: fresh_start_def char_class_facts)

lemma commentRegex_all_line:
  assumes "pre = [] \<or> is_lt (last pre)"
    "\<forall>c \<in> set ws. is_space c" "ds \<noteq> []" "\<forall>c \<in> set ds. is_digit c"
    "\<forall>c \<in> set txt. \<not> is_lt c" "post = [] \<or> is_lt (hd post)"
  shows "commentRegex_all (pre @ ''//'' @ ws @ ds @ '':'' @ txt @ post)
       = commentRegex_all pre @ (ds, txt) # commentRegex_all post"
proof -
  let ?L = "''//'' @ ws @ ds @ '':'' @ txt @ post"
  have a: "commentRegex_all ?L = (ds, txt) # commentRegex_all post"
    using commentRegex_at_line [OF assms(2-6)] by (subst commentRegex_all.simps) simp
  have "commentRegex_all (pre @ ?L) = commentRegex_all pre @ commentRegex_all ?L"
  proof (cases "pre = []")
    case True then show ?thesis by (simp add: commentRegex_all_Nil)
  next
    case False
    then have "ends_lt pre" using assms(1) by (simp add: ends_lt_def)
    moreover have "fresh_start ?L" using fresh_start_slash by simp
    ultimately show ?thesis by (rule commentRegex_all_append)
  qed
  then show ?thesis using a by simp
qed

lemma fold_labels:
  "fold (\<lambda>(i, fullPath) m. m(i \<mapsto> bn fullPath)) ms m0
   = m0 ++ map_of (rev (map (\<lambda>(i, p). (i, bn p)) ms))"
proof (induction ms arbitrary: m0)
  case Nil show ?case by simp
next
  case (Cons a ms)
  obtain i p where a: "a = (i, p)" by (cases a)
  have "m0(i \<mapsto> bn p) ++ X = m0 ++ (map_of [(i, bn p)] ++ X)" for X
    by (simp add: map_add_assoc [symmetric])
  then show ?case unfolding a by (simp add: Cons.IH del: fun_upd_apply)
qed

lemma extractLabels_map_of:
  "extractLabels bn dot = map_of (rev (map (\<lambda>(i, p). (i, bn p)) (commentRegex_all dot)))"
  by (simp add: extractLabels_def fold_labels)

lemma commentRegex_at_slashes: "commentRegex_at s = Some m \<Longrightarrow> take 2 s = ''//''"
proof -
  assume "commentRegex_at s = Some m"
  then obtain s1 where "strip_prefix ''//'' s = Some s1"
    by (auto simp: commentRegex_at_def split: option.splits)
  then have "s = ''//'' @ s1" by (rule strip_prefix_sound)
  then show ?thesis by simp
qed

lemma has_comment_start_take: "take 2 s = ''//'' \<Longrightarrow> has_comment_start s"
  by (cases s rule: has_comment_start.cases) auto

lemma has_comment_start_tail: "has_comment_start s \<Longrightarrow> has_comment_start (a # s)"
  by (cases s) auto

lemma no_comment_start_no_match: "\<not> has_comment_start s \<Longrightarrow> commentRegex_all s = []"
proof (induction s)
  case Nil
  show ?case by (rule commentRegex_all_Nil)
next
  case (Cons a s)
  have "commentRegex_at (a # s) = None"
  proof (cases "commentRegex_at (a # s)")
    case (Some m)
    from has_comment_start_take [OF commentRegex_at_slashes [OF this]] Cons.prems
    show ?thesis by simp
  qed simp
  moreover have "commentRegex_all s = []"
    using Cons.IH Cons.prems has_comment_start_tail by blast
  ultimately show ?case by (subst commentRegex_all.simps) simp
qed

lemma extractLabels_last_wins:
  assumes "commentRegex_all dot = A @ (ds, txt) # B"
  shows "extractLabels bn dot ds =
     (if ds \<in> fst ` set B then map_of (rev (map (\<lambda>(i, p). (i, bn p)) B)) ds else Some (bn txt))"
proof -
  let ?g = "\<lambda>(i, p). (i, bn p)"
  have k: "fst ` set (rev (map ?g B)) = fst ` set B" by (force simp: image_iff)
  have e: "extractLabels bn dot = map_of (rev (map ?g B) @ (ds, bn txt) # rev (map ?g A))"
    unfolding extractLabels_map_of assms by simp
  show ?thesis
  proof (cases "ds \<in> fst ` set B")
    case True
    then have "ds \<in> fst ` set (rev (map ?g B))" using k by simp
    then obtain v where "map_of (rev (map ?g B)) ds = Some v"
      by (metis map_of_eq_None_iff not_Some_eq)
    then show ?thesis using True unfolding e by (simp add: map_add_def)
  next
    case False
    then have "ds \<notin> fst ` set (rev (map ?g B))" using k by simp
    then have "map_of (rev (map ?g B)) ds = None" by (simp add: map_of_eq_None_iff)
    then show ?thesis using False unfolding e by (simp add: map_add_def)
  qed
qed

lemma labels_line:
  assumes "dot = pre @ ''//'' @ ws @ ds @ '':'' @ txt @ post"
    "pre = [] \<or> is_lt (last pre)" "\<forall>c \<in> set ws. is_space c"
    "ds \<noteq> []" "\<forall>c \<in> set ds. is_digit c"
    "\<forall>c \<in> set txt. \<not> is_lt c" "post = [] \<or> is_lt (hd post)"
  shows "commentRegex_all dot = commentRegex_all pre @ (ds, txt) # commentRegex_all post
        \<and> extractLabels bn dot ds =
            (if ds \<in> fst ` set (commentRegex_all post) then extractLabels bn post ds
             else Some (bn txt))"
proof -
  have m: "commentRegex_all dot = commentRegex_all pre @ (ds, txt) # commentRegex_all post"
    unfolding assms(1) using assms(2-7) by (rule commentRegex_all_line)
  show ?thesis
    using m extractLabels_last_wins [OF m, of bn] by (simp add: extractLabels_map_of)
qed

text \<open>
  Claim C7: the map has, for each id, the basename of the path of the last match for that
  id (the matches are taken from left to right, a later one overwriting an earlier one).
  A comment line \<open>//\<close>, white space, digits, a colon and the rest of the line, standing
  at the start of the text or after a line terminator, is always one match, with the
  digits as id and the rest of the line as path, whatever stands in the lines before and
  after it; so its id is mapped to the basename of its text unless a later match has the
  same id. A text with no match, in particular one without two adjacent slashes, gives
  the empty map. The function is total.
\<close>

theorem labels_from_comment_lines:
  "(\<forall>pre ws ds txt post.
      dot = pre @ ''//'' @ ws @ ds @ '':'' @ txt @ post
      \<and> (pre = [] \<or> is_lt (last pre)) \<and> (\<forall>c \<in> set ws. is_space c)
      \<and> ds \<noteq> [] \<and> (\<forall>c \<in> set ds. is_digit c)
      \<and> (\<forall>c \<in> set txt. \<not> is_lt c) \<and> (post = [] \<or> is_lt (hd post))
      \<longrightarrow> commentRegex_all dot = commentRegex_all pre @ (ds, txt) # commentRegex_all post
        \<and> extractLabels bn dot ds =
            (if ds \<in> fst ` set (commentRegex_all post) then extractLabels bn post ds
             else Some (bn txt)))
   \<and> extractLabels bn dot = map_of (rev (map (\<lambda>(i, p). (i, bn p)) (commentRegex_all dot)))
   \<and> (commentRegex_all dot = [] \<longrightarrow> extractLabels bn dot = Map.empty)
   \<and> (\<not> has_comment_start dot \<longrightarrow> extractLabels bn dot = Map.empty)"
proof -
  have a: "\<forall>pre ws ds txt post.
      dot = pre @ ''//'' @ ws @ ds @ '':'' @ txt @ post
      \<and> (pre = [] \<or> is_lt (last pre)) \<and> (\<forall>c \<in> set ws. is_space c)
      \<and> ds \<noteq> [] \<and> (\<forall>c \<in> set ds. is_digit c)
      \<and> (\<forall>c \<in> set txt. \<not> is_lt c) \<and> (post = [] \<or> is_lt (hd post))
      \<longrightarrow> commentRegex_all dot = commentRegex_all pre @ (ds, txt) # commentRegex_all post
        \<and> extractLabels bn dot ds =
            (if ds \<in> fst ` set (commentRegex_all post) then extractLabels bn post ds
             else Some (bn txt))"
    using labels_line [of dot _ _ _ _ _ bn] by blast
  have b: "extractLabels bn dot = map_of (rev (map (\<lambda>(i, p). (i, bn p)) (commentRegex_all dot)))"
    by (rule extractLabels_map_of)
  have c: "commentRegex_all dot = [] \<longrightarrow> extractLabels bn dot = Map.empty"
    by (simp add: extractLabels_def)
  have d: "\<not> has_comment_start dot \<longrightarrow> extractLabels bn dot = Map.empty"
    using no_comment_start_no_match [of dot] by (simp add: extractLabels_def)
  show ?thesis using a b c d by blast
qed

text \<open>
  Two comment lines for id 7: the second wins. A text without comments: the empty map.
\<close>

theorem labels_from_comment_lines_witness:
  "extractLabels posix_basename ''// 7:/a/old.py\<newline>// 7:/a/b/main.py\<newline>7 -> 9;'' ''7'' = Some ''main.py''
   \<and> extractLabels posix_basename ''digraph { 1 -> 2; }'' = Map.empty"
proof -
  let ?dot = "''// 7:/a/old.py\<newline>// 7:/a/b/main.py\<newline>7 -> 9;''"
  note T = labels_from_comment_lines [of ?dot posix_basename]
  have p: "commentRegex_all ''\<newline>7 -> 9;'' = []" by code_simp
  have "?dot = ''// 7:/a/old.py\<newline>'' @ ''//'' @ '' '' @ ''7'' @ '':'' @ ''/a/b/main.py'' @ ''\<newline>7 -> 9;''
      \<and> (''// 7:/a/old.py\<newline>'' = [] \<or> is_lt (last ''// 7:/a/old.py\<newline>''))
      \<and> (\<forall>c \<in> set '' ''. is_space c)
      \<and> ''7'' \<noteq> [] \<and> (\<forall>c \<in> set ''7''. is_digit c)
      \<and> (\<forall>c \<in> set ''/a/b/main.py''. \<not> is_lt c)
      \<and> (''\<newline>7 -> 9;'' = [] \<or> is_lt (hd ''\<newline>7 -> 9;''))"
    by (simp add: is_lt_def is_space_def is_digit_def NL_def CR_def)
  with T have "extractLabels posix_basename ?dot ''7'' =
            (if ''7'' \<in> fst ` set (commentRegex_all ''\<newline>7 -> 9;'')
             then extractLabels posix_basename ''\<newline>7 -> 9;'' ''7''
             else Some (posix_basename ''/a/b/main.py''))"
    by blast
  then have 1: "extractLabels posix_basename ?dot ''7'' = Some ''main.py''"
    by (simp add: p posix_basename_def)
  have "\<not> has_comment_start ''digraph { 1 -> 2; }''" by simp
  with labels_from_comment_lines [of "''digraph { 1 -> 2; }''" posix_basename]
  have 2: "extractLabels posix_basename ''digraph { 1 -> 2; }'' = Map.empty" by blast
  show ?thesis using 1 2 by blast
qed

section \<open>The conversion never throws\<close>

lemma io_catch_console:
  "fst (io_catch m (\<lambda>err. console_write (f err)) w) = Inr ()"
  by (cases "m w" rule: prod.exhaust; cases "fst (m w)")
     (auto simp: io_catch_def console_write_def split: prod.splits sum.splits)

lemma io_bind_console:
  "io_bind (console_write e) f w = f () (w\<lparr>console := console w @ [e]\<rparr>)"
  by (simp add: io_bind_def console_write_def)

lemma io_bind_read:
  "readFile E p w = (Inr raw, w) \<Longrightarrow> io_bind (readFile E p) f w = f raw w"
  by (simp add: io_bind_def)

lemma io_bind_write:
  "write_error E p = None \<Longrightarrow>
   io_bind (writeFile E p c) f w = f () (w\<lparr>files := (files w)(p \<mapsto> c)\<rparr>)"
  by (simp add: io_bind_def writeFile_def)

lemma convertDotIds_fulfilled: "fst (convertDotIds E dotPath w) = Inr ()"
  unfolding convertDotIds_def io_bind_console by (rule io_catch_console)

lemma readFile_world: "snd (readFile E p w) = w"
  by (simp add: readFile_def split: option.splits)

lemma readFile_console [simp]:
  "readFile E p (w\<lparr>console := c\<rparr>) = (fst (readFile E p w), w\<lparr>console := c\<rparr>)"
  by (simp add: readFile_def split: option.splits)

lemma convertDotIds_unreadable:
  assumes "fst (readFile E dotPath w) = Inl e"
  shows "snd (convertDotIds E dotPath w) =
     w\<lparr>console := console w @ [Log (''DOT file path: '' @ dotPath),
                                 LogError (''Failed to convert DOT file: '' @ error_to_string e)]\<rparr>"
  using assms
  by (simp add: convertDotIds_def io_bind_console convertDotIds_body_def io_catch_def io_bind_def
      console_write_def)

lemma convertSideJson_fails:
  assumes "fst (readFile E (path_join E dotDir (dotBase @ ''.json'')) w) = Inl e
      \<or> (\<exists>rawJson. fst (readFile E (path_join E dotDir (dotBase @ ''.json'')) w) = Inr rawJson
            \<and> json_convert E rawJson = Inl e)"
  shows "convertSideJson E dotDir dotBase w =
     (Inr (), w\<lparr>console := console w @
        [Warn (''JSON file not found or failed to convert: '' @ err_message e)]\<rparr>)"
proof -
  obtain r where r: "readFile E (path_join E dotDir (dotBase @ ''.json'')) w = (r, w)"
    using readFile_world [of E _ w] by (metis prod.collapse)
  show ?thesis
    using assms r
    by (auto simp: convertSideJson_def Let_def io_catch_def io_bind_def io_of_def console_write_def)
qed

lemma convertDotIds_side_fails:
  assumes rd: "fst (readFile E dotPath w) = Inr raw"
    and wr: "write_error E (newDotPath_of E dotPath) = None"
    and js: "read_error E (jsonPath_of E dotPath) = Some e
      \<or> (read_error E (jsonPath_of E dotPath) = None \<and> jsonPath_of E dotPath \<noteq> newDotPath_of E dotPath
          \<and> files w (jsonPath_of E dotPath) = None
          \<and> e = JsError ''Error'' (''ENOENT: no such file or directory, open '' @ [SQ] @ jsonPath_of E dotPath @ [SQ]))
      \<or> (read_error E (jsonPath_of E dotPath) = None \<and> jsonPath_of E dotPath \<noteq> newDotPath_of E dotPath
          \<and> (\<exists>rawJson. files w (jsonPath_of E dotPath) = Some rawJson \<and> json_convert E rawJson = Inl e))"
  shows "files (snd (convertDotIds E dotPath w))
      = (files w)(newDotPath_of E dotPath \<mapsto> convertDotText (path_basename E) raw)
    \<and> last (console (snd (convertDotIds E dotPath w)))
      = Warn (''JSON file not found or failed to convert: '' @ err_message e)"
proof -
  let ?new = "convertDotText (path_basename E) raw"
  let ?np = "newDotPath_of E dotPath"
  let ?jp = "jsonPath_of E dotPath"
  define w3 where "w3 = w\<lparr>console := console w @
      [Log (''DOT file path: '' @ dotPath), Log (''Raw DOT content: '' @ replace_crlf raw),
       Log ''ID to label map:'', Log (''DOT IDs converted -> '' @ ?np)],
      files := (files w)(?np \<mapsto> ?new)\<rparr>"
  have r0: "readFile E dotPath w = (Inr raw, w)"
    using rd readFile_world [of E dotPath w] by (metis prod.collapse)
  have side: "fst (readFile E (path_join E (path_dirname E dotPath)
                 (path_basename_ext E dotPath ''.dot'' @ ''.json'')) w3) = Inl e
      \<or> (\<exists>rawJson. fst (readFile E (path_join E (path_dirname E dotPath)
                 (path_basename_ext E dotPath ''.dot'' @ ''.json'')) w3) = Inr rawJson
            \<and> json_convert E rawJson = Inl e)"
    using js by (auto simp: readFile_def w3_def jsonPath_of_def newDotPath_of_def)
  let ?w1 = "w\<lparr>console := console w @ [Log (''DOT file path: '' @ dotPath)]\<rparr>"
  have r1: "readFile E dotPath ?w1 = (Inr raw, ?w1)"
    using r0 by simp
  have wn: "write_error E (path_join E (path_dirname E dotPath)
      (path_basename_ext E dotPath ''.dot'' @ ''.converted.dot'')) = None"
    using wr by (simp add: newDotPath_of_def)
  have weq: "?w1\<lparr>console := console ?w1 @ [Log (''Raw DOT content: '' @ replace_crlf raw)]\<rparr>
              \<lparr>console := console (?w1\<lparr>console := console ?w1 @ [Log (''Raw DOT content: '' @ replace_crlf raw)]\<rparr>)
                   @ [Log ''ID to label map:'']\<rparr>
      = w\<lparr>console := console w @
      [Log (''DOT file path: '' @ dotPath), Log (''Raw DOT content: '' @ replace_crlf raw),
       Log ''ID to label map:'']\<rparr>" (is "?w2 = ?w2'")
    by simp
  have body: "convertDotIds_body E dotPath ?w1
      = convertSideJson E (path_dirname E dotPath) (path_basename_ext E dotPath ''.dot'') w3"
    unfolding convertDotIds_body_def Let_def
    apply (subst io_bind_read [OF r1])
    apply (subst io_bind_console)
    apply (subst io_bind_console)
    apply (subst io_bind_write [OF wn])
    apply (subst io_bind_console)
    apply (subst weq)
    apply (rule arg_cong [where f = "convertSideJson E (path_dirname E dotPath) (path_basename_ext E dotPath ''.dot'')"])
    apply (simp add: w3_def newDotPath_of_def convertDotText_def Let_def)
    done
  have "convertDotIds E dotPath w =
      (Inr (), w3\<lparr>console := console w3 @
        [Warn (''JSON file not found or failed to convert: '' @ err_message e)]\<rparr>)"
    unfolding convertDotIds_def io_bind_console io_catch_def body convertSideJson_fails [OF side]
    by (simp only: prod.case sum.case)
  then show ?thesis by (simp add: w3_def)
qed


text \<open>
  Claim C10: whatever the path, the files and the behaviour of the file system and of the
  JSON step, \<open>convertDotIds\<close> is fulfilled and never rejects. When the DOT file cannot be
  read, no file changes and the error goes to the console. When the DOT file is read and
  the converted file is written, but the side file cannot be read, is absent or does not
  convert, the converted DOT file is the only file written and the console ends with
  the warning.
\<close>

theorem convertDotIds_never_throws:
  "fst (convertDotIds E dotPath w) = Inr ()
   \<and> (\<forall>e. fst (readFile E dotPath w) = Inl e \<longrightarrow>
        snd (convertDotIds E dotPath w) =
          w\<lparr>console := console w @ [Log (''DOT file path: '' @ dotPath),
                 LogError (''Failed to convert DOT file: '' @ error_to_string e)]\<rparr>)
   \<and> (\<forall>raw e. fst (readFile E dotPath w) = Inr raw
        \<and> write_error E (newDotPath_of E dotPath) = None
        \<and> (read_error E (jsonPath_of E dotPath) = Some e
          \<or> (read_error E (jsonPath_of E dotPath) = None
              \<and> jsonPath_of E dotPath \<noteq> newDotPath_of E dotPath
              \<and> files w (jsonPath_of E dotPath) = None
              \<and> e = JsError ''Error'' (''ENOENT: no such file or directory, open '' @ [SQ] @ jsonPath_of E dotPath @ [SQ]))
          \<or> (read_error E (jsonPath_of E dotPath) = None
              \<and> jsonPath_of E dotPath \<noteq> newDotPath_of E dotPath
              \<and> (\<exists>rawJson. files w (jsonPath_of E dotPath) = Some rawJson
                    \<and> json_convert E rawJson = Inl e)))
        \<longrightarrow> files (snd (convertDotIds E dotPath w))
              = (files w)(newDotPath_of E dotPath \<mapsto> convertDotText (path_basename E) raw)
          \<and> last (console (snd (convertDotIds E dotPath w)))
              = Warn (''JSON file not found or failed to convert: '' @ err_message e))"
proof (intro conjI allI impI)
  show "fst (convertDotIds E dotPath w) = Inr ()" by (rule convertDotIds_fulfilled)
next
  fix e assume "fst (readFile E dotPath w) = Inl e"
  then show "snd (convertDotIds E dotPath w) =
          w\<lparr>console := console w @ [Log (''DOT file path: '' @ dotPath),
                 LogError (''Failed to convert DOT file: '' @ error_to_string e)]\<rparr>"
    by (rule convertDotIds_unreadable)
next
  fix raw e
  assume h: "fst (readFile E dotPath w) = Inr raw
        \<and> write_error E (newDotPath_of E dotPath) = None
        \<and> (read_error E (jsonPath_of E dotPath) = Some e
          \<or> (read_error E (jsonPath_of E dotPath) = None
              \<and> jsonPath_of E dotPath \<noteq> newDotPath_of E dotPath
              \<and> files w (jsonPath_of E dotPath) = None
              \<and> e = JsError ''Error'' (''ENOENT: no such file or directory, open '' @ [SQ] @ jsonPath_of E dotPath @ [SQ]))
          \<or> (read_error E (jsonPath_of E dotPath) = None
              \<and> jsonPath_of E dotPath \<noteq> newDotPath_of E dotPath
              \<and> (\<exists>rawJson. files w (jsonPath_of E dotPath) = Some rawJson
                    \<and> json_convert E rawJson = Inl e)))"
  then have a: "fst (readFile E dotPath w) = Inr raw"
    and b: "write_error E (newDotPath_of E dotPath) = None"
    and c: "read_error E (jsonPath_of E dotPath) = Some e
          \<or> (read_error E (jsonPath_of E dotPath) = None
              \<and> jsonPath_of E dotPath \<noteq> newDotPath_of E dotPath
              \<and> files w (jsonPath_of E dotPath) = None
              \<and> e = JsError ''Error'' (''ENOENT: no such file or directory, open '' @ [SQ] @ jsonPath_of E dotPath @ [SQ]))
          \<or> (read_error E (jsonPath_of E dotPath) = None
              \<and> jsonPath_of E dotPath \<noteq> newDotPath_of E dotPath
              \<and> (\<exists>rawJson. files w (jsonPath_of E dotPath) = Some rawJson
                    \<and> json_convert E rawJson = Inl e))"
    by blast+
  from convertDotIds_side_fails [OF a b c]
  show "files (snd (convertDotIds E dotPath w))
              = (files w)(newDotPath_of E dotPath \<mapsto> convertDotText (path_basename E) raw)"
    and "last (console (snd (convertDotIds E dotPath w)))
              = Warn (''JSON file not found or failed to convert: '' @ err_message e)"
    by blast+
qed

lemma convertDotText_example:
  "convertDotText posix_basename ''// 7:/a/b/main.py\<newline>7 -> 9;''
   = [DQ] @ ''main.py'' @ [DQ] @ '' -> '' @ [DQ] @ ''9'' @ [DQ] @ '';''"
  by code_simp

text \<open>
  No file at all: two console lines, no file written. A DOT file and no side file: the
  converted DOT file is written.
\<close>

theorem convertDotIds_never_throws_witness:
  "convertDotIds example_env ''out/depends-output-file.dot'' \<lparr> files = Map.empty, console = [] \<rparr>
     = (Inr (), \<lparr> files = Map.empty,
          console = [Log ''DOT file path: out/depends-output-file.dot'',
                     LogError (''Failed to convert DOT file: Error: ENOENT: no such file or directory, ''
                               @ ''open '' @ [SQ] @ ''out/depends-output-file.dot'' @ [SQ])] \<rparr>)
   \<and> fst (convertDotIds example_env ''out/depends-output-file.dot''
        \<lparr> files = [''out/depends-output-file.dot'' \<mapsto> ''// 7:/a/b/main.py\<newline>7 -> 9;''], console = [] \<rparr>)
     = Inr ()
   \<and> files (snd (convertDotIds example_env ''out/depends-output-file.dot''
        \<lparr> files = [''out/depends-output-file.dot'' \<mapsto> ''// 7:/a/b/main.py\<newline>7 -> 9;''], console = [] \<rparr>))
     = [''out/depends-output-file.dot'' \<mapsto> ''// 7:/a/b/main.py\<newline>7 -> 9;'',
        ''out/depends-output-file.converted.dot'' \<mapsto>
          [DQ] @ ''main.py'' @ [DQ] @ '' -> '' @ [DQ] @ ''9'' @ [DQ] @ '';'']"
proof -
  let ?p = "''out/depends-output-file.dot''"
  let ?w0 = "\<lparr> files = Map.empty, console = [] \<rparr>"
  let ?w1 = "\<lparr> files = [?p \<mapsto> ''// 7:/a/b/main.py\<newline>7 -> 9;''], console = [] \<rparr>"
  let ?e0 = "JsError ''Error'' (''ENOENT: no such file or directory, open '' @ [SQ] @ ?p @ [SQ])"
  let ?e1 = "JsError ''Error'' (''ENOENT: no such file or directory, open '' @ [SQ] @ jsonPath_of example_env ?p @ [SQ])"
  note T0 = convertDotIds_never_throws [of example_env ?p ?w0]
  note T1 = convertDotIds_never_throws [of example_env ?p ?w1]
  have r0: "fst (readFile example_env ?p ?w0) = Inl ?e0"
    by (simp add: readFile_def example_env_def)
  from T0 r0 have s0: "snd (convertDotIds example_env ?p ?w0) =
      ?w0\<lparr>console := console ?w0 @ [Log (''DOT file path: '' @ ?p),
                 LogError (''Failed to convert DOT file: '' @ error_to_string ?e0)]\<rparr>"
    by blast
  from T0 have f0: "fst (convertDotIds example_env ?p ?w0) = Inr ()" by blast
  have a: "convertDotIds example_env ?p ?w0
     = (Inr (), \<lparr> files = Map.empty,
          console = [Log ''DOT file path: out/depends-output-file.dot'',
                     LogError (''Failed to convert DOT file: Error: ENOENT: no such file or directory, ''
                               @ ''open '' @ [SQ] @ ''out/depends-output-file.dot'' @ [SQ])] \<rparr>)"
    using f0 s0 by (simp add: prod_eq_iff error_to_string_def)
  have h1: "fst (readFile example_env ?p ?w1) = Inr ''// 7:/a/b/main.py\<newline>7 -> 9;''
        \<and> write_error example_env (newDotPath_of example_env ?p) = None
        \<and> (read_error example_env (jsonPath_of example_env ?p) = Some ?e1
          \<or> (read_error example_env (jsonPath_of example_env ?p) = None
              \<and> jsonPath_of example_env ?p \<noteq> newDotPath_of example_env ?p
              \<and> files ?w1 (jsonPath_of example_env ?p) = None
              \<and> ?e1 = JsError ''Error'' (''ENOENT: no such file or directory, open '' @ [SQ] @ jsonPath_of example_env ?p @ [SQ]))
          \<or> (read_error example_env (jsonPath_of example_env ?p) = None
              \<and> jsonPath_of example_env ?p \<noteq> newDotPath_of example_env ?p
              \<and> (\<exists>rawJson. files ?w1 (jsonPath_of example_env ?p) = Some rawJson
                    \<and> json_convert example_env rawJson = Inl ?e1)))"
    by (simp add: readFile_def example_env_def jsonPath_of_def newDotPath_of_def)
  from T1 h1 have "files (snd (convertDotIds example_env ?p ?w1))
      = (files ?w1)(newDotPath_of example_env ?p \<mapsto>
          convertDotText (path_basename example_env) ''// 7:/a/b/main.py\<newline>7 -> 9;'')"
    by blast
  then have b: "files (snd (convertDotIds example_env ?p ?w1))
     = [?p \<mapsto> ''// 7:/a/b/main.py\<newline>7 -> 9;'',
        ''out/depends-output-file.converted.dot'' \<mapsto>
          [DQ] @ ''main.py'' @ [DQ] @ '' -> '' @ [DQ] @ ''9'' @ [DQ] @ '';'']"
    using convertDotText_example by (simp add: example_env_def newDotPath_of_def)
  from T1 have c: "fst (convertDotIds example_env ?p ?w1) = Inr ()" by blast
  show ?thesis using a b c by blast
qed

section \<open>Rewriting the DOT text\<close>

subsection \<open>Lines and texts\<close>

lemma lines_text_Nil [simp]: "lines_text [] v = v"
  by (simp add: lines_text_def)

lemma lines_text_Cons [simp]: "lines_text (u # us) v = u @ NL # lines_text us v"
  by (simp add: lines_text_def)

lemma no_lt_Nil [simp]: "no_lt []"
  by (simp add: no_lt_def)

lemma no_lt_Cons [simp]: "no_lt (c # s) = (\<not> is_lt c \<and> no_lt s)"
  by (simp add: no_lt_def)

lemma no_lt_append [simp]: "no_lt (a @ b) = (no_lt a \<and> no_lt b)"
  by (auto simp: no_lt_def)

lemma all_space_Nil [simp]: "all_space []"
  by (simp add: all_space_def)

lemma all_space_Cons [simp]: "all_space (c # s) = (is_space c \<and> all_space s)"
  by (simp add: all_space_def)

lemma is_lt_NL [simp]: "is_lt NL"
  by (simp add: is_lt_def)

lemma is_space_NL [simp]: "is_space NL"
  by (simp add: is_space_def NL_def)

subsection \<open>Comment removal\<close>

lemma removeComments_Nil: "removeComments b [] = []"
  by (subst removeComments.simps) (simp add: comment_line_at_def)

lemma removeComments_False: "removeComments False (c # s) = c # removeComments (is_lt c) s"
  by (subst removeComments.simps) simp

lemma removeComments_none:
  "comment_line_at (c # s) = None \<Longrightarrow> removeComments b (c # s) = c # removeComments (is_lt c) s"
  by (subst removeComments.simps) simp

lemma removeComments_plain:
  "no_lt u \<Longrightarrow> removeComments False (u @ NL # rest) = u @ NL # removeComments True rest"
  by (induction u) (simp_all add: removeComments_False)

lemma removeComments_plain_end: "no_lt u \<Longrightarrow> removeComments False u = u"
  by (induction u) (simp_all add: removeComments_False removeComments_Nil)

lemma comment_line_at_not:
  "take 2 u \<noteq> ''//'' \<Longrightarrow> r = [] \<or> hd r \<noteq> CHR ''/'' \<Longrightarrow> comment_line_at (u @ r) = None"
proof (cases u)
  case Nil
  assume "r = [] \<or> hd r \<noteq> CHR ''/''"
  then show ?thesis using Nil by (cases r) (auto simp: comment_line_at_def)
next
  case (Cons a u')
  assume t: "take 2 u \<noteq> ''//''" and r: "r = [] \<or> hd r \<noteq> CHR ''/''"
  show ?thesis
  proof (cases u')
    case Nil
    then show ?thesis using Cons r by (cases r) (auto simp: comment_line_at_def)
  next
    case (Cons b u'')
    then show ?thesis using t \<open>u = a # u'\<close> by (auto simp: comment_line_at_def)
  qed
qed

lemma NL_not_slash: "NL \<noteq> CHR ''/''"
  by (simp add: NL_def)

lemma removeComments_line:
  assumes "no_lt u"
  shows "removeComments True (u @ NL # rest) = strip_comment u @ NL # removeComments True rest"
proof (cases "take 2 u = ''//''")
  case True
  then obtain u' where u: "u = ''//'' @ u'"
    by (cases u; cases "tl u") auto
  have n: "no_lt u'" using assms u by simp
  have "dropWhile (\<lambda>c. \<not> is_lt c) (u' @ NL # rest) = NL # rest"
    using n by (simp add: dropWhile_append3 no_lt_def)
  then have "comment_line_at (u @ NL # rest) = Some (NL # rest)"
    by (simp add: comment_line_at_def u)
  then have "removeComments True (u @ NL # rest) = removeComments False (NL # rest)"
    by (subst removeComments.simps) simp
  then show ?thesis using True by (simp add: removeComments_False strip_comment_def)
next
  case False
  have c: "comment_line_at (u @ NL # rest) = None"
    using False by (rule comment_line_at_not) (simp add: NL_not_slash)
  show ?thesis
  proof (cases u)
    case Nil
    then show ?thesis using c by (simp add: removeComments_none strip_comment_def)
  next
    case (Cons a u')
    then have "removeComments True (u @ NL # rest) = a # removeComments False (u' @ NL # rest)"
      using c assms by (simp add: removeComments_none)
    then show ?thesis using Cons assms False by (simp add: removeComments_plain strip_comment_def)
  qed
qed

lemma removeComments_line_end:
  assumes "no_lt u"
  shows "removeComments True u = strip_comment u"
proof (cases "take 2 u = ''//''")
  case True
  then obtain u' where u: "u = ''//'' @ u'"
    by (cases u; cases "tl u") auto
  have n: "no_lt u'" using assms u by simp
  then have "dropWhile (\<lambda>c. \<not> is_lt c) u' = []" by (simp add: no_lt_def)
  then have "comment_line_at u = Some []"
    by (simp add: comment_line_at_def u)
  then have "removeComments True u = removeComments False []"
    by (subst removeComments.simps) simp
  then show ?thesis using True by (simp add: removeComments_Nil strip_comment_def)
next
  case False
  have c: "comment_line_at (u @ []) = None"
    using False by (rule comment_line_at_not) simp
  show ?thesis
  proof (cases u)
    case Nil
    then show ?thesis by (simp add: removeComments_Nil strip_comment_def)
  next
    case (Cons a u')
    then have "removeComments True u = a # removeComments False u'"
      using c assms by (simp add: removeComments_none)
    then show ?thesis using Cons assms False by (simp add: removeComments_plain_end strip_comment_def)
  qed
qed

lemma removeComments_lines:
  "\<forall>u \<in> set us. no_lt u \<Longrightarrow> no_lt v \<Longrightarrow>
   removeComments True (lines_text us v) = lines_text (map strip_comment us) (strip_comment v)"
  by (induction us) (simp_all add: removeComments_line removeComments_line_end)

subsection \<open>Blank line removal\<close>

lemma removeBlank_Nil: "removeBlank b [] = []"
  by (subst removeBlank.simps) (simp add: blank_at_def)

lemma removeBlank_False: "removeBlank False (c # s) = c # removeBlank (is_lt c) s"
  by (subst removeBlank.simps) simp

lemma removeBlank_none:
  "blank_at (c # s) = None \<Longrightarrow> removeBlank b (c # s) = c # removeBlank (is_lt c) s"
  by (subst removeBlank.simps) simp

lemma removeBlank_plain:
  "no_lt u \<Longrightarrow> removeBlank False (u @ NL # rest) = u @ NL # removeBlank True rest"
  by (induction u) (simp_all add: removeBlank_False)

lemma removeBlank_plain_end: "no_lt u \<Longrightarrow> removeBlank False u = u"
  by (induction u) (simp_all add: removeBlank_False removeBlank_Nil)

lemma dropWhile_all: "\<forall>c \<in> set s. P c \<Longrightarrow> dropWhile P s = []"
  by simp

lemma blank_at_no_lt:
  assumes "no_lt (takeWhile is_space s)"
  shows "blank_at s = None"
proof -
  have "\<forall>c \<in> set (rev (takeWhile is_space s)). \<not> is_lt c" using assms by (simp add: no_lt_def)
  then have "dropWhile (\<lambda>c. \<not> is_lt c) (rev (takeWhile is_space s)) = []" by simp
  then show ?thesis by (simp add: blank_at_def)
qed

lemma takeWhile_space_nonblank:
  "\<not> all_space u \<Longrightarrow> takeWhile is_space (u @ r) = takeWhile is_space u"
proof -
  assume "\<not> all_space u"
  then obtain x where "x \<in> set u" "\<not> is_space x" by (auto simp: all_space_def)
  then show ?thesis by (rule takeWhile_append1)
qed

lemma no_lt_takeWhile: "no_lt u \<Longrightarrow> no_lt (takeWhile P u)"
  by (auto simp: no_lt_def dest: set_takeWhileD)

lemma removeBlank_nonblank_line:
  assumes "no_lt u" "\<not> all_space u"
  shows "removeBlank True (u @ NL # rest) = u @ NL # removeBlank True rest"
proof -
  have "no_lt (takeWhile is_space (u @ NL # rest))"
    using assms by (simp add: takeWhile_space_nonblank no_lt_takeWhile)
  then have b: "blank_at (u @ NL # rest) = None" by (rule blank_at_no_lt)
  obtain a u' where u: "u = a # u'" using assms(2) by (cases u) auto
  have "removeBlank True (u @ NL # rest) = a # removeBlank False (u' @ NL # rest)"
    using b assms(1) u by (simp add: removeBlank_none)
  then show ?thesis using u assms(1) by (simp add: removeBlank_plain)
qed

lemma removeBlank_end:
  assumes "no_lt v"
  shows "removeBlank True v = v"
proof (cases v)
  case Nil then show ?thesis by (simp add: removeBlank_Nil)
next
  case (Cons a v')
  have "blank_at v = None" using assms by (intro blank_at_no_lt no_lt_takeWhile)
  then have "removeBlank True v = a # removeBlank False v'"
    using Cons assms by (simp add: removeBlank_none)
  then show ?thesis using Cons assms by (simp add: removeBlank_plain_end)
qed

lemma takeWhile_all_space: "all_space u \<Longrightarrow> takeWhile is_space (u @ r) = u @ takeWhile is_space r"
  by (simp add: all_space_def takeWhile_append2)

lemma removeBlank_blank_line:
  assumes "all_space u"
  shows "removeBlank True (u @ NL # rest) = removeBlank True rest"
proof -
  let ?A = "takeWhile is_space rest"
  let ?kA = "length (dropWhile (\<lambda>c. \<not> is_lt c) (rev ?A))"
  have run: "takeWhile is_space (u @ NL # rest) = u @ NL # ?A"
    using assms by (simp add: takeWhile_all_space)
  have rv: "rev (u @ NL # ?A) = rev ?A @ NL # rev u" by simp
  show ?thesis
  proof (cases "?kA = 0")
    case True
    then have "\<forall>c \<in> set (rev ?A). \<not> is_lt c"
      by (metis dropWhile_eq_Nil_conv length_0_conv)
    then have "dropWhile (\<lambda>c. \<not> is_lt c) (rev ?A @ NL # rev u) = NL # rev u"
      by (simp add: dropWhile_append3)
    then have "blank_at (u @ NL # rest) = Some rest"
      unfolding blank_at_def run rv by (simp add: Let_def)
    then show ?thesis by (subst removeBlank.simps) simp
  next
    case False
    then obtain x where x: "x \<in> set (rev ?A)" "\<not> \<not> is_lt x"
      by (metis dropWhile_eq_Nil_conv length_0_conv)
    have "dropWhile (\<lambda>c. \<not> is_lt c) (rev ?A @ NL # rev u)
        = dropWhile (\<lambda>c. \<not> is_lt c) (rev ?A) @ NL # rev u"
      using x by (rule dropWhile_append1)
    then have k: "length (dropWhile (\<lambda>c. \<not> is_lt c) (rev (takeWhile is_space (u @ NL # rest))))
        = length u + 1 + ?kA"
      unfolding run rv by simp
    have "drop (length u + 1 + ?kA) (u @ NL # rest) = drop ?kA rest" by simp
    then have 1: "blank_at (u @ NL # rest) = Some (drop ?kA rest)"
      unfolding blank_at_def k by (simp add: Let_def)
    have 2: "blank_at rest = Some (drop ?kA rest)"
      using False by (simp add: blank_at_def Let_def)
    have "removeBlank True (u @ NL # rest) = removeBlank True (drop ?kA rest)"
      using 1 by (subst removeBlank.simps) simp
    moreover have "removeBlank True rest = removeBlank True (drop ?kA rest)"
      using 2 by (subst removeBlank.simps) simp
    ultimately show ?thesis by simp
  qed
qed

lemma removeBlank_lines:
  "\<forall>u \<in> set us. no_lt u \<Longrightarrow> no_lt v \<Longrightarrow>
   removeBlank True (lines_text us v) = lines_text (filter (\<lambda>u. \<not> all_space u) us) v"
  by (induction us) (simp_all add: removeBlank_nonblank_line removeBlank_blank_line removeBlank_end)

subsection \<open>Edge replacement\<close>

lemma replaceEdges_Nil: "replaceEdges m b [] = []"
  by (subst replaceEdges.simps) (simp add: edge_stmt_at_def)

lemma replaceEdges_False: "replaceEdges m False (c # s) = c # replaceEdges m (is_lt c) s"
  by (subst replaceEdges.simps) simp

lemma replaceEdges_none:
  "edge_stmt_at (c # s) = None \<Longrightarrow> replaceEdges m b (c # s) = c # replaceEdges m (is_lt c) s"
  by (subst replaceEdges.simps) simp

lemma replaceEdges_some:
  "edge_stmt_at s = Some (sp, f, t, r) \<Longrightarrow>
   replaceEdges m True s = edge_replacement m sp f t @ replaceEdges m False r"
  by (subst replaceEdges.simps) simp

lemma replaceEdges_plain:
  "no_lt u \<Longrightarrow> replaceEdges m False (u @ NL # rest) = u @ NL # replaceEdges m True rest"
  by (induction u) (simp_all add: replaceEdges_False)

lemma replaceEdges_plain_end: "no_lt u \<Longrightarrow> replaceEdges m False u = u"
  by (induction u) (simp_all add: replaceEdges_False replaceEdges_Nil)

lemma edge_stmt_at_space:
  "is_space c \<Longrightarrow> edge_stmt_at (c # s) =
     (case edge_stmt_at s of None \<Rightarrow> None | Some (sp, f, t, r) \<Rightarrow> Some (c # sp, f, t, r))"
  by (simp add: edge_stmt_at_def Let_def split: option.splits)

lemma edge_replacement_Cons:
  "edge_replacement m (c # sp) f t = c # edge_replacement m sp f t"
  by (simp add: edge_replacement_def)

lemma replaceEdges_space:
  "is_space c \<Longrightarrow> replaceEdges m True (c # s) = c # replaceEdges m True s \<or>
     (edge_stmt_at s = None \<and> replaceEdges m True (c # s) = c # replaceEdges m (is_lt c) s)"
proof (cases "edge_stmt_at s")
  case None
  assume "is_space c"
  then have "edge_stmt_at (c # s) = None" using None by (simp add: edge_stmt_at_space)
  then show ?thesis using None by (simp add: replaceEdges_none)
next
  case (Some q)
  assume c: "is_space c"
  obtain sp f t r where q: "q = (sp, f, t, r)" by (cases q)
  have "edge_stmt_at (c # s) = Some (c # sp, f, t, r)"
    using c Some q by (simp add: edge_stmt_at_space)
  then have "replaceEdges m True (c # s) = c # edge_replacement m sp f t @ replaceEdges m False r"
    by (simp add: replaceEdges_some edge_replacement_Cons)
  moreover have "replaceEdges m True s = edge_replacement m sp f t @ replaceEdges m False r"
    using Some q by (simp add: replaceEdges_some)
  ultimately show ?thesis by simp
qed

lemma replaceEdges_blank_line:
  "all_space ws \<Longrightarrow> replaceEdges m b (ws @ NL # rest) = ws @ NL # replaceEdges m True rest"
proof (induction ws arbitrary: b)
  case Nil
  show ?case
  proof (cases b)
    case False then show ?thesis by (simp add: replaceEdges_False)
  next
    case True
    then show ?thesis using replaceEdges_space [of NL m rest] by auto
  qed
next
  case (Cons c ws)
  then have c: "is_space c" and ws: "all_space ws" by simp_all
  note IH = Cons.IH [OF ws]
  show ?case
  proof (cases b)
    case False then show ?thesis by (simp add: replaceEdges_False IH)
  next
    case True
    then show ?thesis using replaceEdges_space [OF c, of m "ws @ NL # rest"] by (auto simp: IH)
  qed
qed

lemma edge_stmt_at_no_digit:
  assumes "dropWhile is_space s \<noteq> []" "\<not> is_digit (hd (dropWhile is_space s))"
  shows "edge_stmt_at (s @ r) = None"
proof -
  obtain x where x: "x \<in> set s" "\<not> is_space x"
    using assms(1) by (metis dropWhile_eq_Nil_conv)
  have "dropWhile is_space (s @ r) = dropWhile is_space s @ r"
    using x by (rule dropWhile_append1)
  then have "takeWhile is_digit (dropWhile is_space (s @ r)) = []"
    using assms by (cases "dropWhile is_space s") auto
  then show ?thesis by (simp add: edge_stmt_at_def Let_def)
qed

lemma replaceEdges_other_line:
  assumes "no_lt s" "dropWhile is_space s \<noteq> []" "\<not> is_digit (hd (dropWhile is_space s))"
  shows "replaceEdges m True (s @ NL # rest) = s @ NL # replaceEdges m True rest"
    and "replaceEdges m True s = s"
proof -
  obtain a s' where s: "s = a # s'" using assms(2) by (cases s) auto
  have 1: "edge_stmt_at (s @ NL # rest) = None" using assms(2,3) by (rule edge_stmt_at_no_digit)
  have 2: "edge_stmt_at (s @ []) = None" using assms(2,3) by (rule edge_stmt_at_no_digit)
  show "replaceEdges m True (s @ NL # rest) = s @ NL # replaceEdges m True rest"
    using 1 assms(1) unfolding s by (simp add: replaceEdges_none replaceEdges_plain)
  show "replaceEdges m True s = s"
    using 2 assms(1) unfolding s by (simp add: replaceEdges_none replaceEdges_plain_end)
qed

lemma char_facts2:
  "is_digit c \<Longrightarrow> \<not> is_space c" "is_space (CHR '' '')" "\<not> is_digit (CHR '' '')"
  "\<not> is_space (CHR ''-'')" "\<not> is_digit (CHR '';'')" "\<not> is_space (CHR ''/'')" "\<not> is_digit (CHR ''/'')"
  "\<not> is_space DQ"
  by (auto simp: is_space_def is_digit_def DQ_def)

lemma edge_stmt_at_edge:
  assumes "all_space ws" "all_digits f" "all_digits t"
  shows "edge_stmt_at (ws @ f @ '' -> '' @ t @ '';'' @ r) = Some (ws, f, t, r)"
proof -
  let ?r3 = "CHR '';'' # r"
  let ?r2 = "CHR '' '' # t @ ?r3"
  let ?r1 = "CHR '' '' # CHR ''-'' # CHR ''>'' # ?r2"
  obtain f0 f' where f: "f = f0 # f'" using assms(2) by (cases f) (auto simp: all_digits_def)
  obtain t0 t' where t: "t = t0 # t'" using assms(3) by (cases t) (auto simp: all_digits_def)
  have fd: "\<forall>c \<in> set f. is_digit c" and td: "\<forall>c \<in> set t. is_digit c"
    using assms by (auto simp: all_digits_def)
  have f0: "\<not> is_space f0" using fd f char_facts2(1) by auto
  have t0: "\<not> is_space t0" using td t char_facts2(1) by auto
  have a1: "takeWhile is_space (ws @ f @ ?r1) = ws"
    using assms(1) f0 f by (simp add: all_space_def takeWhile_tail)
  have a2: "dropWhile is_space (ws @ f @ ?r1) = f @ ?r1"
    using assms(1) f0 f by (simp add: all_space_def dropWhile_append3)
  have b1: "takeWhile is_digit (f @ ?r1) = f"
    using fd char_facts2(3) by (simp add: takeWhile_tail)
  have b2: "dropWhile is_digit (f @ ?r1) = ?r1"
    using fd char_facts2(3) by (simp add: dropWhile_append3)
  have c1: "takeWhile is_space ?r1 = '' ''" using char_facts2 by simp
  have c2: "dropWhile is_space ?r1 = CHR ''-'' # CHR ''>'' # ?r2" using char_facts2 by simp
  have d0: "strip_prefix ''->'' (CHR ''-'' # CHR ''>'' # ?r2) = Some ?r2" by simp
  have d1: "takeWhile is_space ?r2 = '' ''" using char_facts2 t0 t by simp
  have d2: "dropWhile is_space ?r2 = t @ ?r3" using char_facts2 t0 t by simp
  have e1: "takeWhile is_digit (t @ ?r3) = t"
    using td char_facts2(5) by (simp add: takeWhile_tail)
  have e2: "dropWhile is_digit (t @ ?r3) = ?r3"
    using td char_facts2(5) by (simp add: dropWhile_append3)
  have g: "strip_prefix '';'' ?r3 = Some r" by simp
  have "edge_stmt_at (ws @ f @ ?r1) = Some (ws, f, t, r)"
    unfolding edge_stmt_at_def Let_def a1 a2 b1 b2 c1 c2 d0 option.case d1 d2 e1 e2 g
    using f t by simp
  then show ?thesis by simp
qed

lemma replaceEdges_edge_line:
  assumes "all_space ws" "all_digits f" "all_digits t" "no_lt tail"
  shows "replaceEdges m True (render (EdgeLine ws f t tail) @ NL # rest)
         = edge_replacement m ws f t @ tail @ NL # replaceEdges m True rest"
    and "replaceEdges m True (render (EdgeLine ws f t tail)) = edge_replacement m ws f t @ tail"
proof -
  have 1: "edge_stmt_at (render (EdgeLine ws f t tail) @ NL # rest) = Some (ws, f, t, tail @ NL # rest)"
    using edge_stmt_at_edge [OF assms(1-3), of "tail @ NL # rest"] by simp
  have 2: "edge_stmt_at (render (EdgeLine ws f t tail)) = Some (ws, f, t, tail)"
    using edge_stmt_at_edge [OF assms(1-3), of tail] by simp
  show "replaceEdges m True (render (EdgeLine ws f t tail) @ NL # rest)
         = edge_replacement m ws f t @ tail @ NL # replaceEdges m True rest"
    by (simp only: replaceEdges_some [OF 1] replaceEdges_plain [OF assms(4)])
  show "replaceEdges m True (render (EdgeLine ws f t tail)) = edge_replacement m ws f t @ tail"
    by (simp only: replaceEdges_some [OF 2] replaceEdges_plain_end [OF assms(4)])
qed

lemma all_space_no_lt_end: "all_space ws \<Longrightarrow> no_lt ws \<Longrightarrow> replaceEdges m True ws = ws"
proof (cases ws)
  case Nil then show ?thesis by (simp add: replaceEdges_Nil)
next
  case (Cons c ws')
  assume a: "all_space ws" and n: "no_lt ws"
  have "dropWhile is_space ws = []" using a by (simp add: all_space_def)
  then have "takeWhile is_digit (dropWhile is_space ws) = []" by (simp only: takeWhile.simps)
  then have "edge_stmt_at ws = None" unfolding edge_stmt_at_def Let_def by simp
  then show ?thesis using Cons n by (simp add: replaceEdges_none replaceEdges_plain_end)
qed

lemma replaceEdges_line:
  assumes "wf_line l"
  shows "replaceEdges m True (render l @ NL # rest) = edges_done m l @ NL # replaceEdges m True rest"
    and "replaceEdges m True (render l) = edges_done m l"
proof -
  have "replaceEdges m True (render l @ NL # rest) = edges_done m l @ NL # replaceEdges m True rest
      \<and> replaceEdges m True (render l) = edges_done m l"
  proof (cases l)
    case (EdgeLine ws f t tail)
    then show ?thesis using assms replaceEdges_edge_line(1) [of ws f t tail m rest]
      replaceEdges_edge_line(2) [of ws f t tail m] by simp
  next
    case (CommentLine ct)
    have d: "dropWhile is_space (''//'' @ ct) \<noteq> []" "\<not> is_digit (hd (dropWhile is_space (''//'' @ ct)))"
      using char_facts2 by simp_all
    have n: "no_lt (''//'' @ ct)" using assms CommentLine by (simp add: is_lt_def NL_def CR_def)
    show ?thesis using CommentLine replaceEdges_other_line(1) [OF n d, of m rest]
      replaceEdges_other_line(2) [OF n d, of m] by simp
  next
    case (BlankLine ws)
    then show ?thesis using assms by (simp add: replaceEdges_blank_line all_space_no_lt_end)
  next
    case (OtherLine s)
    then show ?thesis using assms replaceEdges_other_line(1) [of s m rest] replaceEdges_other_line(2) [of s m]
      by simp
  qed
  then show "replaceEdges m True (render l @ NL # rest) = edges_done m l @ NL # replaceEdges m True rest"
    and "replaceEdges m True (render l) = edges_done m l" by simp_all
qed

lemma replaceEdges_lines:
  "\<forall>l \<in> set ls. wf_line l \<Longrightarrow> wf_line fin \<Longrightarrow>
   replaceEdges m True (lines_text (map render ls) (render fin))
   = lines_text (map (edges_done m) ls) (edges_done m fin)"
  by (induction ls) (simp_all add: replaceEdges_line)

subsection \<open>The three passes together\<close>

lemma label_or_id_no_lt:
  "lt_free_labels m \<Longrightarrow> all_digits x \<Longrightarrow> no_lt (label_or_id m x)"
proof -
  assume m: "lt_free_labels m" and x: "all_digits x"
  have "no_lt x" using x char_class_facts(2) by (auto simp: all_digits_def no_lt_def)
  then show ?thesis using m by (auto simp: label_or_id_def lt_free_labels_def split: option.splits)
qed

lemma no_lt_literals: "\<not> is_lt DQ" "\<not> is_lt (CHR '' '')" "\<not> is_lt (CHR ''-'')" "\<not> is_lt (CHR ''>'')"
  "\<not> is_lt (CHR '';'')" "\<not> is_lt (CHR ''/'')"
  by (simp_all add: is_lt_def DQ_def NL_def CR_def)

lemma edges_done_no_lt:
  assumes "lt_free_labels m" "wf_line l"
  shows "no_lt (edges_done m l)"
proof (cases l)
  case (EdgeLine ws f t tail)
  then show ?thesis
    using assms label_or_id_no_lt [OF assms(1)]
    by (simp add: edge_replacement_def no_lt_literals)
next
  case (CommentLine ct)
  then show ?thesis using assms by (simp add: no_lt_literals)
qed (use assms in simp_all)

lemma edge_replacement_shape:
  "all_space ws \<Longrightarrow> take 2 (edge_replacement m ws f t @ tail) \<noteq> ''//''
     \<and> \<not> all_space (edge_replacement m ws f t @ tail)"
proof -
  assume a: "all_space ws"
  have 1: "\<not> all_space (edge_replacement m ws f t @ tail)"
    using char_facts2(8) by (auto simp: edge_replacement_def all_space_def)
  have 2: "take 2 (edge_replacement m ws f t @ tail) \<noteq> ''//''"
  proof (cases ws)
    case Nil
    then show ?thesis by (simp add: edge_replacement_def DQ_def)
  next
    case (Cons c ws')
    then have "is_space c" using a by simp
    then have "c \<noteq> CHR ''/''" using char_facts2(6) by auto
    then show ?thesis using Cons by (simp add: edge_replacement_def)
  qed
  show ?thesis using 1 2 by simp
qed

lemma take2_after_space: "take 2 (dropWhile is_space s) \<noteq> ''//'' \<Longrightarrow> take 2 s \<noteq> ''//''"
proof (cases s)
  case (Cons c cs)
  assume a: "take 2 (dropWhile is_space s) \<noteq> ''//''"
  show ?thesis
  proof (cases "is_space c")
    case True
    then have "c \<noteq> CHR ''/''" using char_facts2(6) by auto
    then show ?thesis using Cons by simp
  next
    case False
    then show ?thesis using a Cons by simp
  qed
qed simp

lemma strip_comment_edges_done:
  "wf_line l \<Longrightarrow> strip_comment (edges_done m l) = out_line m l"
proof (cases l)
  case (EdgeLine ws f t tail)
  assume "wf_line l"
  then show ?thesis using EdgeLine edge_replacement_shape [of ws m f t tail]
    by (simp add: strip_comment_def)
next
  case (CommentLine ct)
  then show ?thesis by (simp add: strip_comment_def)
next
  case (BlankLine ws)
  assume "wf_line l"
  then have a: "all_space ws" using BlankLine by simp
  have "take 2 ws \<noteq> ''//''"
  proof (cases ws)
    case (Cons c ws')
    then have "c \<noteq> CHR ''/''" using a char_facts2(6) by auto
    then show ?thesis using Cons by simp
  qed simp
  then show ?thesis using BlankLine by (simp add: strip_comment_def)
next
  case (OtherLine s)
  assume "wf_line l"
  then have "take 2 s \<noteq> ''//''" using OtherLine by (simp add: take2_after_space)
  then show ?thesis using OtherLine by (simp add: strip_comment_def)
qed

lemma out_line_no_lt:
  assumes "lt_free_labels m" "wf_line l"
  shows "no_lt (out_line m l)"
  using edges_done_no_lt [OF assms] strip_comment_edges_done [OF assms(2), of m]
  by (cases "take 2 (edges_done m l) = ''//''") (auto simp: strip_comment_def)

lemma out_line_blank:
  assumes "wf_line l"
  shows "(\<not> all_space (out_line m l)) = kept l"
proof (cases l)
  case (EdgeLine ws f t tail)
  then show ?thesis using assms edge_replacement_shape [of ws m f t tail] by simp
next
  case (OtherLine s)
  then have "dropWhile is_space s \<noteq> []" using assms by simp
  then have "\<not> all_space s" by (auto simp: all_space_def)
  then show ?thesis using OtherLine by simp
qed (use assms in simp_all)

lemma filter_out_lines:
  "\<forall>l \<in> set ls. wf_line l \<Longrightarrow>
   filter (\<lambda>u. \<not> all_space u) (map (out_line m) ls) = map (out_line m) (filter kept ls)"
  by (induction ls) (simp_all add: out_line_blank)

lemma rewriteDot_lines:
  assumes "\<forall>l \<in> set ls. wf_line l" "wf_line fin" "lt_free_labels m"
  shows "rewriteDot m (lines_text (map render ls) (render fin))
       = lines_text (map (out_line m) (filter kept ls)) (out_line m fin)"
proof -
  have 1: "replaceEdges m True (lines_text (map render ls) (render fin))
      = lines_text (map (edges_done m) ls) (edges_done m fin)"
    using assms(1,2) by (rule replaceEdges_lines)
  have n1: "\<forall>u \<in> set (map (edges_done m) ls). no_lt u" "no_lt (edges_done m fin)"
    using assms edges_done_no_lt by auto
  have 2: "removeComments True (lines_text (map (edges_done m) ls) (edges_done m fin))
      = lines_text (map (out_line m) ls) (out_line m fin)"
    using removeComments_lines [OF n1] assms(1,2)
    by (simp add: strip_comment_edges_done cong: map_cong)
  have n2: "\<forall>u \<in> set (map (out_line m) ls). no_lt u" "no_lt (out_line m fin)"
    using assms out_line_no_lt by auto
  have 3: "removeBlank True (lines_text (map (out_line m) ls) (out_line m fin))
      = lines_text (map (out_line m) (filter kept ls)) (out_line m fin)"
    using removeBlank_lines [OF n2] filter_out_lines [OF assms(1)] by simp
  show ?thesis unfolding rewriteDot_def 1 2 3 ..
qed

subsection \<open>Texts that end in a line terminator\<close>

lemma ends_lt_Cons: "ends_lt (c # cs) = (if cs = [] then is_lt c else ends_lt cs)"
  by (simp add: ends_lt_def)

lemma ends_lt_append_right: "ends_lt b \<Longrightarrow> ends_lt (a @ b)"
  by (simp add: ends_lt_def)

lemma ends_lt_length2: "ends_lt s \<Longrightarrow> \<not> is_lt (hd s) \<Longrightarrow> \<exists>c d t. s = c # d # t"
  by (cases s; cases "tl s") (auto simp: ends_lt_def)

lemma strip_prefix_none_append:
  "strip_prefix p s = None \<Longrightarrow> \<forall>c \<in> set p. \<not> is_lt c \<Longrightarrow> ends_lt s \<Longrightarrow>
   strip_prefix p (s @ r) = None"
proof (induction p s rule: strip_prefix.induct)
  case (1 s) then show ?case by simp
next
  case (2 p ps) then show ?case by (simp add: ends_lt_def)
next
  case (3 p ps c cs)
  show ?case
  proof (cases "p = c")
    case False then show ?thesis by simp
  next
    case True
    then have n: "strip_prefix ps cs = None" using "3.prems"(1) by simp
    have "\<not> is_lt c" using True "3.prems"(2) by simp
    then have "cs \<noteq> []" using "3.prems"(3) by (auto simp: ends_lt_def)
    then have "ends_lt cs" using "3.prems"(3) by (simp add: ends_lt_def)
    then show ?thesis using True "3.IH" n "3.prems"(2) by simp
  qed
qed

lemma strip_prefix_rest_ends:
  "strip_prefix p s = Some r \<Longrightarrow> p \<noteq> [] \<Longrightarrow> \<not> is_lt (last p) \<Longrightarrow> ends_lt s \<Longrightarrow> ends_lt r"
proof -
  assume a: "strip_prefix p s = Some r" and p: "p \<noteq> []" "\<not> is_lt (last p)" and e: "ends_lt s"
  have s: "s = p @ r" using a by (rule strip_prefix_sound)
  have "r \<noteq> []" using s e p by (auto simp: ends_lt_def)
  then show ?thesis using s e by (simp add: ends_lt_def)
qed

subsection \<open>Comment removal at a line boundary\<close>

lemma comment_line_at_append:
  assumes e: "ends_lt s"
  shows "comment_line_at (s @ r) = (case comment_line_at s of None \<Rightarrow> None | Some rest \<Rightarrow> Some (rest @ r))
    \<and> (\<forall>rest. comment_line_at s = Some rest \<longrightarrow> ends_lt rest)"
proof (cases "strip_prefix ''//'' s")
  case None
  then have "strip_prefix ''//'' (s @ r) = None"
    using e by (intro strip_prefix_none_append) (auto simp: no_lt_literals)
  then show ?thesis using None by (simp add: comment_line_at_def)
next
  case (Some s1)
  have e1: "ends_lt s1" using strip_prefix_rest_ends [OF Some _ _ e] by (simp add: no_lt_literals)
  obtain w where w: "w \<in> set s1" "is_lt w" using ends_lt_has [OF e1] by blast
  have d: "dropWhile (\<lambda>c. \<not> is_lt c) (s1 @ r) = dropWhile (\<lambda>c. \<not> is_lt c) s1 @ r"
    using w by (intro dropWhile_append1 [of w]) auto
  have ne: "dropWhile (\<lambda>c. \<not> is_lt c) s1 \<noteq> []"
    using w by (intro dropWhile_nonempty [of w]) auto
  have er: "ends_lt (dropWhile (\<lambda>c. \<not> is_lt c) s1)" using ends_lt_dropWhile [OF e1 ne] .
  show ?thesis
    using Some strip_prefix_append [OF Some, of r] d er by (simp add: comment_line_at_def)
qed

lemma removeComments_some:
  "comment_line_at s = Some rest \<Longrightarrow> removeComments True s = removeComments False rest"
  by (subst removeComments.simps) simp

lemma removeComments_append:
  "ends_lt s \<Longrightarrow> removeComments b (s @ r) = removeComments b s @ removeComments True r"
proof (induction s arbitrary: b rule: length_induct)
  case (1 s)
  note IH = "1.IH" and e = "1.prems"
  obtain c cs where s: "s = c # cs" using e by (cases s) (auto simp: ends_lt_def)
  note A = comment_line_at_append [OF e, of r]
  have tail: "removeComments (is_lt c) (cs @ r) = removeComments (is_lt c) cs @ removeComments True r"
  proof (cases "cs = []")
    case True
    then have "is_lt c" using e s by (simp add: ends_lt_def)
    then show ?thesis using True by (simp add: removeComments_Nil)
  next
    case False
    then have "ends_lt cs" using e s by (simp add: ends_lt_def)
    then show ?thesis using IH s by simp
  qed
  have copy: "removeComments b (s @ r) = removeComments b s @ removeComments True r"
    if "removeComments b (c # cs @ r) = c # removeComments (is_lt c) (cs @ r)"
      and "removeComments b (c # cs) = c # removeComments (is_lt c) cs"
    using that tail unfolding s by simp
  show ?case
  proof (cases b)
    case False
    show ?thesis using False by (intro copy) (simp_all add: removeComments_False)
  next
    case True
    show ?thesis
    proof (cases "comment_line_at s")
      case None
      then have n: "comment_line_at (c # cs @ r) = None" using A s by simp
      have n0: "comment_line_at (c # cs) = None" using None s by simp
      show ?thesis using removeComments_none [OF n] removeComments_none [OF n0] by (intro copy)
    next
      case (Some rest)
      have er: "ends_lt rest" using A Some by blast
      have lr: "length rest < length s" using Some by (rule comment_line_at_length)
      have ar: "comment_line_at (s @ r) = Some (rest @ r)" using A Some by simp
      have "removeComments True (s @ r) = removeComments False (rest @ r)"
        using ar by (rule removeComments_some)
      moreover have "removeComments True s = removeComments False rest"
        using Some by (rule removeComments_some)
      ultimately show ?thesis using IH lr er True by simp
    qed
  qed
qed

lemma removeComments_ends_lt: "ends_lt s \<Longrightarrow> ends_lt (removeComments b s)"
proof (induction s arbitrary: b rule: length_induct)
  case (1 s)
  note IH = "1.IH" and e = "1.prems"
  obtain c cs where s: "s = c # cs" using e by (cases s) (auto simp: ends_lt_def)
  note A = comment_line_at_append [OF e, of "[]"]
  have copy: "ends_lt (removeComments b s)"
    if 2: "removeComments b (c # cs) = c # removeComments (is_lt c) cs"
  proof (cases "cs = []")
    case True
    then have "is_lt c" using e s by (simp add: ends_lt_def)
    then show ?thesis using 2 True s by (simp add: removeComments_Nil ends_lt_def)
  next
    case False
    then have "ends_lt cs" using e s by (simp add: ends_lt_def)
    then have "ends_lt (removeComments (is_lt c) cs)" using IH s by simp
    then show ?thesis using 2 s by (simp add: ends_lt_def)
  qed
  show ?case
  proof (cases b)
    case False
    show ?thesis using False by (intro copy) (simp add: removeComments_False)
  next
    case True
    show ?thesis
    proof (cases "comment_line_at s")
      case None
      then have "comment_line_at (c # cs) = None" using s by simp
      then show ?thesis by (intro copy removeComments_none)
    next
      case (Some rest)
      have er: "ends_lt rest" using A Some by blast
      have lr: "length rest < length s" using Some by (rule comment_line_at_length)
      have "removeComments True s = removeComments False rest"
        using Some by (rule removeComments_some)
      then show ?thesis using IH lr er True by simp
    qed
  qed
qed

lemma removeComments_keep:
  "no_lt u \<Longrightarrow> removeComments False (u @ r) = u @ removeComments False r"
  by (induction u) (simp_all add: removeComments_False)

subsection \<open>Blank line removal at a line boundary\<close>

lemma removeBlank_some:
  "blank_at s = Some rest \<Longrightarrow> removeBlank True s = removeBlank True rest"
  by (subst removeBlank.simps) simp

lemma removeBlank_blank_run:
  assumes "all_space u" "is_lt c"
  shows "removeBlank True (u @ c # rest) = removeBlank True rest"
proof -
  let ?A = "takeWhile is_space rest"
  let ?kA = "length (dropWhile (\<lambda>c. \<not> is_lt c) (rev ?A))"
  have sc: "is_space c" using assms(2) char_class_facts(1) by blast
  have run: "takeWhile is_space (u @ c # rest) = u @ c # ?A"
    using assms(1) sc by (simp add: takeWhile_all_space)
  have rv: "rev (u @ c # ?A) = rev ?A @ c # rev u" by simp
  show ?thesis
  proof (cases "?kA = 0")
    case True
    then have "\<forall>c \<in> set (rev ?A). \<not> is_lt c"
      by (metis dropWhile_eq_Nil_conv length_0_conv)
    then have "dropWhile (\<lambda>c. \<not> is_lt c) (rev ?A @ c # rev u) = c # rev u"
      using assms(2) by (simp add: dropWhile_append3)
    then have "blank_at (u @ c # rest) = Some rest"
      unfolding blank_at_def run rv by (simp add: Let_def)
    then show ?thesis by (subst removeBlank.simps) simp
  next
    case False
    then obtain x where x: "x \<in> set (rev ?A)" "\<not> \<not> is_lt x"
      by (metis dropWhile_eq_Nil_conv length_0_conv)
    have "dropWhile (\<lambda>c. \<not> is_lt c) (rev ?A @ c # rev u)
        = dropWhile (\<lambda>c. \<not> is_lt c) (rev ?A) @ c # rev u"
      using x by (rule dropWhile_append1)
    then have k: "length (dropWhile (\<lambda>c. \<not> is_lt c) (rev (takeWhile is_space (u @ c # rest))))
        = length u + 1 + ?kA"
      unfolding run rv by simp
    have "drop (length u + 1 + ?kA) (u @ c # rest) = drop ?kA rest" by simp
    then have 1: "blank_at (u @ c # rest) = Some (drop ?kA rest)"
      unfolding blank_at_def k by (simp add: Let_def)
    have 2: "blank_at rest = Some (drop ?kA rest)"
      using False by (simp add: blank_at_def Let_def)
    have "removeBlank True (u @ c # rest) = removeBlank True (drop ?kA rest)"
      using 1 by (subst removeBlank.simps) simp
    moreover have "removeBlank True rest = removeBlank True (drop ?kA rest)"
      using 2 by (subst removeBlank.simps) simp
    ultimately show ?thesis by simp
  qed
qed

lemma all_space_ends_split: "all_space s \<Longrightarrow> ends_lt s \<Longrightarrow> \<exists>u c. s = u @ [c] \<and> all_space u \<and> is_lt c"
proof -
  assume a: "all_space s" and e: "ends_lt s"
  then have "s = butlast s @ [last s]" by (simp add: ends_lt_def)
  moreover have "all_space (butlast s)" using a by (auto simp: all_space_def dest: in_set_butlastD)
  ultimately show ?thesis using e unfolding ends_lt_def by blast
qed

lemma removeBlank_all_space:
  assumes "all_space s" "ends_lt s"
  shows "removeBlank True (s @ r) = removeBlank True r"
proof -
  obtain u c where s: "s = u @ [c]" "all_space u" "is_lt c"
    using all_space_ends_split [OF assms] by blast
  show ?thesis using removeBlank_blank_run [OF s(2,3), of r] by (simp add: s(1))
qed

lemma blank_at_append_nonblank:
  assumes "\<not> all_space s"
  shows "blank_at (s @ r) = (case blank_at s of None \<Rightarrow> None | Some rest \<Rightarrow> Some (rest @ r))
    \<and> (\<forall>rest. blank_at s = Some rest \<longrightarrow> rest \<noteq> [] \<and> (\<exists>u. s = u @ rest))"
proof -
  define k where "k = length (dropWhile (\<lambda>c. \<not> is_lt c) (rev (takeWhile is_space s)))"
  have run: "takeWhile is_space (s @ r) = takeWhile is_space s"
    using assms by (rule takeWhile_space_nonblank)
  have "k \<le> length (takeWhile is_space s)"
    unfolding k_def using length_dropWhile_le [of "\<lambda>c. \<not> is_lt c" "rev (takeWhile is_space s)"] by simp
  moreover have "length (takeWhile is_space s) < length s"
  proof -
    have "dropWhile is_space s \<noteq> []" using assms by (auto simp: all_space_def)
    moreover have "length s = length (takeWhile is_space s) + length (dropWhile is_space s)"
      by (metis length_append takeWhile_dropWhile_id)
    ultimately show ?thesis by simp
  qed
  ultimately have kl: "k < length s" by simp
  then have d: "drop k (s @ r) = drop k s @ r" by simp
  have ne: "drop k s \<noteq> []" using kl by simp
  have sp: "\<exists>u. s = u @ drop k s" by (metis append_take_drop_id)
  show ?thesis
    unfolding blank_at_def run Let_def k_def [symmetric]
    using d ne sp by auto
qed

lemma removeBlank_append:
  "ends_lt s \<Longrightarrow> removeBlank b (s @ r) = removeBlank b s @ removeBlank True r"
proof (induction s arbitrary: b rule: length_induct)
  case (1 s)
  note IH = "1.IH" and e = "1.prems"
  obtain c cs where s: "s = c # cs" using e by (cases s) (auto simp: ends_lt_def)
  have tail: "removeBlank (is_lt c) (cs @ r) = removeBlank (is_lt c) cs @ removeBlank True r"
  proof (cases "cs = []")
    case True
    then have "is_lt c" using e s by (simp add: ends_lt_def)
    then show ?thesis using True by (simp add: removeBlank_Nil)
  next
    case False
    then have "ends_lt cs" using e s by (simp add: ends_lt_def)
    then show ?thesis using IH s by simp
  qed
  have copy: "removeBlank b (s @ r) = removeBlank b s @ removeBlank True r"
    if "removeBlank b (c # cs @ r) = c # removeBlank (is_lt c) (cs @ r)"
      and "removeBlank b (c # cs) = c # removeBlank (is_lt c) cs"
    using that tail unfolding s by simp
  show ?case
  proof (cases b)
    case False
    show ?thesis using False by (intro copy) (simp_all add: removeBlank_False)
  next
    case True
    show ?thesis
    proof (cases "all_space s")
      case sp: True
      have "removeBlank True (s @ r) = removeBlank True r"
        using sp e by (rule removeBlank_all_space)
      moreover have "removeBlank True s = []"
        using removeBlank_all_space [OF sp e, of "[]"] by (simp add: removeBlank_Nil)
      ultimately show ?thesis using True by simp
    next
      case False
      note A = blank_at_append_nonblank [OF False, of r]
      show ?thesis
      proof (cases "blank_at s")
        case None
        then have n: "blank_at (c # cs @ r) = None" using A s by simp
        have n0: "blank_at (c # cs) = None" using None s by simp
        show ?thesis using removeBlank_none [OF n] removeBlank_none [OF n0] by (intro copy)
      next
        case (Some rest)
        then have ar: "blank_at (s @ r) = Some (rest @ r)" using A by simp
        obtain u where u: "s = u @ rest" "rest \<noteq> []" using A Some by blast
        have er: "ends_lt rest" using e u by (simp add: ends_lt_def)
        have lr: "length rest < length s" using Some by (rule blank_at_length)
        have "removeBlank True (s @ r) = removeBlank True (rest @ r)"
          using ar by (rule removeBlank_some)
        moreover have "removeBlank True s = removeBlank True rest"
          using Some by (rule removeBlank_some)
        ultimately show ?thesis using IH lr er True by simp
      qed
    qed
  qed
qed

lemma removeBlank_keep:
  "no_lt u \<Longrightarrow> removeBlank False (u @ r) = u @ removeBlank False r"
  by (induction u) (simp_all add: removeBlank_False)

lemma removeBlank_keep_line:
  assumes "no_lt u" "\<not> all_space u"
  shows "removeBlank True (u @ r) = u @ removeBlank False r"
proof -
  have "no_lt (takeWhile is_space (u @ r))"
    using assms by (simp add: takeWhile_space_nonblank no_lt_takeWhile)
  then have b: "blank_at (u @ r) = None" by (rule blank_at_no_lt)
  obtain a u' where u: "u = a # u'" using assms(2) by (cases u) auto
  have "removeBlank True (u @ r) = a # removeBlank False (u' @ r)"
    using b assms(1) u by (simp add: removeBlank_none)
  then show ?thesis using u assms(1) by (simp add: removeBlank_keep)
qed

subsection \<open>The whole conversion of a text made of lines\<close>

lemma replace_crlf_no_CR: "CR \<notin> set s \<Longrightarrow> replace_crlf s = s"
  by (induction s rule: replace_crlf.induct) auto

lemma no_lt_no_CR: "no_lt s \<Longrightarrow> CR \<notin> set s"
  by (auto simp: no_lt_def is_lt_def)

lemma render_no_lt: "wf_line l \<Longrightarrow> no_lt (render l)"
proof (cases l)
  case (EdgeLine ws f t tail)
  assume "wf_line l"
  then have "no_lt ws" "no_lt tail" "\<forall>c \<in> set f. is_digit c" "\<forall>c \<in> set t. is_digit c"
    using EdgeLine by (simp_all add: all_digits_def)
  moreover have "is_digit c \<Longrightarrow> \<not> is_lt c" for c by (auto simp: is_digit_def is_lt_def NL_def CR_def)
  ultimately have "no_lt ws" "no_lt tail" "no_lt f" "no_lt t" by (auto simp: no_lt_def)
  then show ?thesis using EdgeLine by (simp add: is_lt_def NL_def CR_def)
qed (auto simp: is_lt_def NL_def CR_def)

lemma lines_text_no_CR:
  "\<forall>u \<in> set us. no_lt u \<Longrightarrow> no_lt v \<Longrightarrow> CR \<notin> set (lines_text us v)"
proof (induction us)
  case Nil then show ?case by (simp add: no_lt_no_CR)
next
  case (Cons u us)
  have "NL \<noteq> CR" by (simp add: NL_def CR_def)
  moreover have "CR \<notin> set u" using Cons.prems(1) by (simp add: no_lt_no_CR)
  moreover have "CR \<notin> set (lines_text us v)" using Cons by simp
  ultimately show ?case by auto
qed

lemma commentRegex_at_path: "commentRegex_at s = Some (i, p, r) \<Longrightarrow> no_lt p"
proof -
  assume "commentRegex_at s = Some (i, p, r)"
  then obtain s3 where "p = takeWhile (\<lambda>c. \<not> is_lt c) s3"
    by (auto simp: commentRegex_at_def Let_def split: option.splits if_splits)
  then show ?thesis by (auto simp: no_lt_def dest: set_takeWhileD)
qed

lemma commentRegex_all_paths: "(i, p) \<in> set (commentRegex_all s) \<Longrightarrow> no_lt p"
proof (induction s rule: commentRegex_all.induct)
  case (1 s)
  show ?case
  proof (cases "commentRegex_at s")
    case None
    show ?thesis
    proof (cases s)
      case Nil
      then show ?thesis using None "1.prems" by (simp add: commentRegex_all.simps [of "[]"])
    next
      case (Cons c cs)
      have "commentRegex_all s = commentRegex_all cs"
        using None Cons by (simp add: commentRegex_all.simps [of "c # cs"])
      then show ?thesis using "1.IH"(1) [OF None Cons] "1.prems" by simp
    qed
  next
    case (Some m)
    obtain i' p' r where m: "m = (i', p', r)" by (cases m)
    have "set (commentRegex_all s) = insert (i', p') (set (commentRegex_all r))"
      using Some m by (simp add: commentRegex_all.simps [of s])
    then show ?thesis using 1 Some m commentRegex_at_path [of s i' p' r] by auto
  qed
qed

lemma extractLabels_lt_free: "keeps_lt_free bn \<Longrightarrow> lt_free_labels (extractLabels bn dot)"
  unfolding lt_free_labels_def extractLabels_map_of keeps_lt_free_def
  using commentRegex_all_paths [of _ _ dot] by (auto dest!: map_of_SomeD)

lemma posix_basename_lt_free: "keeps_lt_free posix_basename"
  unfolding keeps_lt_free_def posix_basename_def no_lt_def
  by (auto dest!: set_takeWhileD set_dropWhileD)

lemma convertDotText_lines:
  assumes "\<forall>l \<in> set ls. wf_line l" "wf_line fin" "keeps_lt_free bn"
  shows "convertDotText bn (lines_text (map render ls) (render fin))
       = lines_text (map (out_line (extractLabels bn (lines_text (map render ls) (render fin))))
                      (filter kept ls))
           (out_line (extractLabels bn (lines_text (map render ls) (render fin))) fin)"
proof -
  let ?T = "lines_text (map render ls) (render fin)"
  have "CR \<notin> set ?T" using assms(1,2) by (intro lines_text_no_CR) (auto simp: render_no_lt)
  then have 1: "replace_crlf ?T = ?T" by (rule replace_crlf_no_CR)
  show ?thesis unfolding convertDotText_def Let_def 1
    using assms(1,2) extractLabels_lt_free [OF assms(3)] by (rule rewriteDot_lines)
qed

subsection \<open>The comment lines of the output\<close>

lemma split_nl_no_NL: "NL \<notin> set v \<Longrightarrow> split_nl v = [v]"
  by (induction v) auto

lemma split_nl_line: "NL \<notin> set u \<Longrightarrow> split_nl (u @ NL # s) = u # split_nl s"
  by (induction u) auto

lemma split_nl_lines_text:
  "\<forall>u \<in> set us. NL \<notin> set u \<Longrightarrow> NL \<notin> set v \<Longrightarrow> split_nl (lines_text us v) = us @ [v]"
  by (induction us) (simp_all add: split_nl_no_NL split_nl_line)

lemma no_lt_no_NL: "no_lt s \<Longrightarrow> NL \<notin> set s"
  by (auto simp: no_lt_def is_lt_def)

lemma out_line_not_comment:
  assumes "wf_line l"
  shows "take 2 (dropWhile is_space (out_line m l)) \<noteq> ''//''"
proof (cases l)
  case (EdgeLine ws f t tail)
  then have a: "all_space ws" using assms by simp
  have "dropWhile is_space (edge_replacement m ws f t @ tail)
      = DQ # label_or_id m f @ [DQ] @ '' -> '' @ [DQ] @ label_or_id m t @ [DQ] @ '';'' @ tail"
    using a char_facts2(8) by (simp add: edge_replacement_def all_space_def)
  then show ?thesis using EdgeLine by (simp add: DQ_def)
next
  case (BlankLine ws)
  then have "dropWhile is_space ws = []" using assms by (simp add: all_space_def)
  then have "take 2 (dropWhile is_space ws) = []" by (simp only: take.simps)
  then show ?thesis using BlankLine by (simp del: dropWhile_eq_Nil_conv)
qed (use assms in simp_all)

lemma comment_lines_lines_text:
  "\<forall>u \<in> set us. NL \<notin> set u \<Longrightarrow> NL \<notin> set v \<Longrightarrow>
   comment_lines (lines_text us v)
     = filter (\<lambda>l. take 2 (dropWhile is_space l) = ''//'') (us @ [v])"
  by (simp add: comment_lines_def split_nl_lines_text)

lemma out_lines_no_comment:
  assumes "\<forall>l \<in> set ls. wf_line l" "wf_line fin" "lt_free_labels m"
  shows "comment_lines (lines_text (map (out_line m) (filter kept ls)) (out_line m fin)) = []"
proof -
  have "\<forall>u \<in> set (map (out_line m) (filter kept ls)). NL \<notin> set u"
    using assms(1,3) by (auto intro!: no_lt_no_NL out_line_no_lt)
  moreover have "NL \<notin> set (out_line m fin)"
    using assms(2,3) by (auto intro!: no_lt_no_NL out_line_no_lt)
  ultimately have "comment_lines (lines_text (map (out_line m) (filter kept ls)) (out_line m fin))
      = filter (\<lambda>l. take 2 (dropWhile is_space l) = ''//'')
          (map (out_line m) (filter kept ls) @ [out_line m fin])"
    by (rule comment_lines_lines_text)
  also have "\<dots> = []"
    using assms(1,2) by (auto simp: filter_empty_conv out_line_not_comment)
  finally show ?thesis .
qed

subsection \<open>Edge replacement at a line boundary\<close>

lemma run_append:
  assumes "dropWhile P s \<noteq> []"
  shows "dropWhile P (s @ r) = dropWhile P s @ r" and "takeWhile P (s @ r) = takeWhile P s"
proof -
  obtain x where x: "x \<in> set s" "\<not> P x" using assms by (metis dropWhile_eq_Nil_conv)
  show "dropWhile P (s @ r) = dropWhile P s @ r" using x by (rule dropWhile_append1)
  show "takeWhile P (s @ r) = takeWhile P s" using x by (rule takeWhile_append1)
qed

lemma run_all:
  assumes "dropWhile P s = []"
  shows "dropWhile P (s @ r) = dropWhile P r" and "takeWhile P (s @ r) = s @ takeWhile P r"
  using assms by (simp_all add: dropWhile_append2 takeWhile_append2)

lemma takeWhile_Nil_append: "s \<noteq> [] \<Longrightarrow> takeWhile P s = [] \<Longrightarrow> takeWhile P (s @ r) = []"
  by (cases s) (auto split: if_splits)

lemma ends_lt_drop_digits: "ends_lt s \<Longrightarrow> dropWhile is_digit s \<noteq> []"
  using ends_lt_has [of s] char_class_facts(2) dropWhile_nonempty [of _ s is_digit] by blast

lemma ends_lt_nonempty: "ends_lt s \<Longrightarrow> s \<noteq> []"
  by (simp add: ends_lt_def)

lemma edge_stmt_at_unfold:
  "edge_stmt_at s =
     (if takeWhile is_digit (dropWhile is_space s) = []
         \<or> takeWhile is_space (dropWhile is_digit (dropWhile is_space s)) = [] then None
      else (case strip_prefix ''->'' (dropWhile is_space (dropWhile is_digit (dropWhile is_space s))) of
              None \<Rightarrow> None
            | Some s4 \<Rightarrow>
                if takeWhile is_space s4 = [] \<or> takeWhile is_digit (dropWhile is_space s4) = [] then None
                else (case strip_prefix '';'' (dropWhile is_digit (dropWhile is_space s4)) of
                        None \<Rightarrow> None
                      | Some rest \<Rightarrow>
                          Some (takeWhile is_space s, takeWhile is_digit (dropWhile is_space s),
                                takeWhile is_digit (dropWhile is_space s4), rest))))"
  by (simp add: edge_stmt_at_def Let_def split: option.splits)

lemma edge_stmt_at_append:
  assumes e: "ends_lt s" and ns: "\<not> all_space s" and fr: "edge_fresh r"
  shows "edge_stmt_at (s @ r) =
           (case edge_stmt_at s of None \<Rightarrow> None | Some (sp, f, t, rest) \<Rightarrow> Some (sp, f, t, rest @ r))
       \<and> (\<forall>sp f t rest. edge_stmt_at s = Some (sp, f, t, rest) \<longrightarrow> ends_lt rest)"
proof -
  let ?s1 = "dropWhile is_space s"
  let ?s2 = "dropWhile is_digit ?s1"
  let ?s3 = "dropWhile is_space ?s2"
  have s1: "?s1 \<noteq> []" using ns by (auto simp: all_space_def)
  have e1: "ends_lt ?s1" using e s1 by (rule ends_lt_dropWhile)
  note a1 = run_append [OF s1, of r]
  have s2: "?s2 \<noteq> []" using e1 by (rule ends_lt_drop_digits)
  have e2: "ends_lt ?s2" using e1 s2 by (rule ends_lt_dropWhile)
  note a2 = run_append [OF s2, of r]
  have none: "edge_stmt_at (s @ r) =
           (case edge_stmt_at s of None \<Rightarrow> None | Some (sp, f, t, rest) \<Rightarrow> Some (sp, f, t, rest @ r))
       \<and> (\<forall>sp f t rest. edge_stmt_at s = Some (sp, f, t, rest) \<longrightarrow> ends_lt rest)"
    if "edge_stmt_at s = None" "edge_stmt_at (s @ r) = None"
    using that by simp
  show ?thesis
  proof (cases "takeWhile is_digit ?s1 = [] \<or> takeWhile is_space ?s2 = []")
    case True
    have 1: "edge_stmt_at s = None" using True by (subst edge_stmt_at_unfold) simp
    have "takeWhile is_digit (?s1 @ r) = [] \<or> takeWhile is_space (?s2 @ r) = []"
      using True a2(2) takeWhile_Nil_append [OF s2, of is_space r] by auto
    then have 2: "edge_stmt_at (s @ r) = None"
      by (subst edge_stmt_at_unfold) (simp only: a1 a2 if_True)
    show ?thesis using 1 2 by (rule none)
  next
    case False
    then have d: "takeWhile is_digit ?s1 \<noteq> []" "takeWhile is_space ?s2 \<noteq> []" by simp_all
    have d': "\<not> (takeWhile is_digit (?s1 @ r) = [] \<or> takeWhile is_space (?s2 @ r) = [])"
    proof (cases "?s3 = []")
      case True
      show ?thesis using d s2 a2(2) run_all(2) [OF True, of r] by (simp del: dropWhile_eq_Nil_conv)
    next
      case False
      show ?thesis using d a2(2) run_append(2) [OF False, of r] by (simp del: dropWhile_eq_Nil_conv)
    qed
    have u0: "edge_stmt_at s =
        (case strip_prefix ''->'' ?s3 of
              None \<Rightarrow> None
            | Some s4 \<Rightarrow>
                if takeWhile is_space s4 = [] \<or> takeWhile is_digit (dropWhile is_space s4) = [] then None
                else (case strip_prefix '';'' (dropWhile is_digit (dropWhile is_space s4)) of
                        None \<Rightarrow> None
                      | Some rest \<Rightarrow>
                          Some (takeWhile is_space s, takeWhile is_digit ?s1,
                                takeWhile is_digit (dropWhile is_space s4), rest)))"
      using False by (subst edge_stmt_at_unfold) (simp only: if_False)
    have u1: "edge_stmt_at (s @ r) =
        (case strip_prefix ''->'' (dropWhile is_space (?s2 @ r)) of
              None \<Rightarrow> None
            | Some s4 \<Rightarrow>
                if takeWhile is_space s4 = [] \<or> takeWhile is_digit (dropWhile is_space s4) = [] then None
                else (case strip_prefix '';'' (dropWhile is_digit (dropWhile is_space s4)) of
                        None \<Rightarrow> None
                      | Some rest \<Rightarrow>
                          Some (takeWhile is_space s, takeWhile is_digit ?s1,
                                takeWhile is_digit (dropWhile is_space s4), rest)))"
      using d' by (subst edge_stmt_at_unfold) (simp only: a1 a2 if_False)
    show ?thesis
    proof (cases "?s3 = []")
      case True
      have 1: "edge_stmt_at s = None" unfolding u0 True by simp
      have "dropWhile is_space (?s2 @ r) = dropWhile is_space r" using True by (rule run_all)
      then have 2: "edge_stmt_at (s @ r) = None" unfolding u1 using fr by (simp add: edge_fresh_def)
      show ?thesis using 1 2 by (rule none)
    next
      case s3: False
      have e3: "ends_lt ?s3" using e2 s3 by (rule ends_lt_dropWhile)
      note a3 = run_append [OF s3, of r]
      show ?thesis
      proof (cases "strip_prefix ''->'' ?s3")
        case None
        have 1: "edge_stmt_at s = None" unfolding u0 None by simp
        have "strip_prefix ''->'' (?s3 @ r) = None"
          using None _ e3 by (rule strip_prefix_none_append) (simp add: no_lt_literals)
        then have 2: "edge_stmt_at (s @ r) = None" unfolding u1 a3 by simp
        show ?thesis using 1 2 by (rule none)
      next
        case (Some s4)
        have p4: "strip_prefix ''->'' (?s3 @ r) = Some (s4 @ r)" using Some by (rule strip_prefix_append)
        have e4: "ends_lt s4" using strip_prefix_rest_ends [OF Some _ _ e3] by (simp add: no_lt_literals)
        have n4: "s4 \<noteq> []" using e4 by (rule ends_lt_nonempty)
        let ?s5 = "dropWhile is_space s4"
        let ?s6 = "dropWhile is_digit ?s5"
        have v0: "edge_stmt_at s =
            (if takeWhile is_space s4 = [] \<or> takeWhile is_digit ?s5 = [] then None
                else (case strip_prefix '';'' ?s6 of
                        None \<Rightarrow> None
                      | Some rest \<Rightarrow>
                          Some (takeWhile is_space s, takeWhile is_digit ?s1, takeWhile is_digit ?s5, rest)))"
          unfolding u0 Some by simp
        have v1: "edge_stmt_at (s @ r) =
            (if takeWhile is_space (s4 @ r) = [] \<or> takeWhile is_digit (dropWhile is_space (s4 @ r)) = [] then None
                else (case strip_prefix '';'' (dropWhile is_digit (dropWhile is_space (s4 @ r))) of
                        None \<Rightarrow> None
                      | Some rest \<Rightarrow>
                          Some (takeWhile is_space s, takeWhile is_digit ?s1,
                                takeWhile is_digit (dropWhile is_space (s4 @ r)), rest)))"
          unfolding u1 a3 p4 by simp
        show ?thesis
        proof (cases "takeWhile is_space s4 = []")
          case True
          have 1: "edge_stmt_at s = None" unfolding v0 using True by simp
          have "takeWhile is_space (s4 @ r) = []" using n4 True by (rule takeWhile_Nil_append)
          then have 2: "edge_stmt_at (s @ r) = None" unfolding v1 by simp
          show ?thesis using 1 2 by (rule none)
        next
          case t4: False
          show ?thesis
          proof (cases "?s5 = []")
            case True
            have 1: "edge_stmt_at s = None" unfolding v0 True by simp
            have "dropWhile is_space (s4 @ r) = dropWhile is_space r" using True by (rule run_all)
            then have 2: "edge_stmt_at (s @ r) = None" unfolding v1 using fr by (auto simp: edge_fresh_def)
            show ?thesis using 1 2 by (rule none)
          next
            case s5: False
            have e5: "ends_lt ?s5" using e4 s5 by (rule ends_lt_dropWhile)
            note a5 = run_append [OF s5, of r]
            have s6: "?s6 \<noteq> []" using e5 by (rule ends_lt_drop_digits)
            have e6: "ends_lt ?s6" using e5 s6 by (rule ends_lt_dropWhile)
            note a6 = run_append [OF s6, of r]
            have w0: "edge_stmt_at s =
                (if takeWhile is_digit ?s5 = [] then None
                 else (case strip_prefix '';'' ?s6 of
                        None \<Rightarrow> None
                      | Some rest \<Rightarrow>
                          Some (takeWhile is_space s, takeWhile is_digit ?s1, takeWhile is_digit ?s5, rest)))"
              unfolding v0 using t4 by simp
            have w1: "edge_stmt_at (s @ r) =
                (if takeWhile is_digit ?s5 = [] then None
                 else (case strip_prefix '';'' (?s6 @ r) of
                        None \<Rightarrow> None
                      | Some rest \<Rightarrow>
                          Some (takeWhile is_space s, takeWhile is_digit ?s1, takeWhile is_digit ?s5, rest)))"
              unfolding v1 a5 a6 using t4 by simp
            show ?thesis
            proof (cases "takeWhile is_digit ?s5 = []")
              case True
              show ?thesis using True w0 w1 by (intro none) simp_all
            next
              case t5: False
              show ?thesis
              proof (cases "strip_prefix '';'' ?s6")
                case None
                have "strip_prefix '';'' (?s6 @ r) = None"
                  using None _ e6 by (rule strip_prefix_none_append) (simp add: no_lt_literals)
                then show ?thesis using None w0 w1 by (intro none) simp_all
              next
                case (Some rest)
                have pr: "strip_prefix '';'' (?s6 @ r) = Some (rest @ r)"
                  using Some by (rule strip_prefix_append)
                have er: "ends_lt rest"
                  using strip_prefix_rest_ends [OF Some _ _ e6] by (simp add: no_lt_literals)
                have 1: "edge_stmt_at s =
                    Some (takeWhile is_space s, takeWhile is_digit ?s1, takeWhile is_digit ?s5, rest)"
                  unfolding w0 Some using t5 by simp
                have 2: "edge_stmt_at (s @ r) =
                    Some (takeWhile is_space s, takeWhile is_digit ?s1, takeWhile is_digit ?s5, rest @ r)"
                  unfolding w1 pr using t5 by simp
                show ?thesis using 1 2 er by simp
              qed
            qed
          qed
        qed
      qed
    qed
  qed
qed

subsection \<open>The rewriting of a text cut at a line start\<close>

lemma edge_stmt_at_Nil: "edge_stmt_at [] = None"
  by (simp add: edge_stmt_at_def)

lemma edge_stmt_at_space_run:
  "all_space s \<Longrightarrow> edge_stmt_at (s @ r) =
     (case edge_stmt_at r of None \<Rightarrow> None | Some (sp, f, t, rest) \<Rightarrow> Some (s @ sp, f, t, rest))"
  by (induction s) (auto simp: edge_stmt_at_space split: option.splits)

lemma edge_replacement_append:
  "edge_replacement m (s @ sp) f t = s @ edge_replacement m sp f t"
  by (simp add: edge_replacement_def)

lemma replaceEdges_all_space: "all_space s \<Longrightarrow> replaceEdges m b s = s"
proof (induction s arbitrary: b)
  case Nil show ?case by (rule replaceEdges_Nil)
next
  case (Cons c cs)
  have "edge_stmt_at ((c # cs) @ []) = None"
    using Cons.prems by (subst edge_stmt_at_space_run) (simp_all add: edge_stmt_at_Nil)
  then have "edge_stmt_at (c # cs) = None" by simp
  then have "replaceEdges m b (c # cs) = c # replaceEdges m (is_lt c) cs" by (rule replaceEdges_none)
  then show ?case using Cons by simp
qed

lemma replaceEdges_append:
  "ends_lt s \<Longrightarrow> edge_fresh r \<Longrightarrow> replaceEdges m b (s @ r) = replaceEdges m b s @ replaceEdges m True r"
proof (induction s arbitrary: b rule: length_induct)
  case (1 s)
  note IH = "1.IH" and e = "1.prems"(1) and fr = "1.prems"(2)
  obtain c cs where s: "s = c # cs" using e by (cases s) (auto simp: ends_lt_def)
  have tail: "replaceEdges m (is_lt c) (cs @ r) = replaceEdges m (is_lt c) cs @ replaceEdges m True r"
  proof (cases "cs = []")
    case True
    then have "is_lt c" using e s by (simp add: ends_lt_def)
    then show ?thesis using True by (simp add: replaceEdges_Nil)
  next
    case False
    then have "ends_lt cs" using e s by (simp add: ends_lt_def)
    then show ?thesis using IH s fr by simp
  qed
  have copy: "replaceEdges m b (s @ r) = replaceEdges m b s @ replaceEdges m True r"
    if "replaceEdges m b (c # cs @ r) = c # replaceEdges m (is_lt c) (cs @ r)"
      and "replaceEdges m b (c # cs) = c # replaceEdges m (is_lt c) cs"
    using that tail unfolding s by simp
  show ?case
  proof (cases b)
    case False
    show ?thesis using False by (intro copy) (simp_all add: replaceEdges_False)
  next
    case True
    show ?thesis
    proof (cases "all_space s")
      case sp: True
      have s0: "replaceEdges m True s = s" using sp by (rule replaceEdges_all_space)
      note R = edge_stmt_at_space_run [OF sp, of r]
      show ?thesis
      proof (cases "edge_stmt_at r")
        case None
        then have n: "edge_stmt_at (c # cs @ r) = None" using R s by simp
        have "edge_stmt_at (s @ []) = None"
          using sp by (subst edge_stmt_at_space_run) (simp_all add: edge_stmt_at_Nil)
        then have n0: "edge_stmt_at (c # cs) = None" using s by simp
        show ?thesis using replaceEdges_none [OF n] replaceEdges_none [OF n0] by (intro copy)
      next
        case (Some q)
        obtain w f t rest where q: "q = (w, f, t, rest)" by (cases q)
        have 1: "edge_stmt_at (s @ r) = Some (s @ w, f, t, rest)" using R Some q by simp
        have 2: "edge_stmt_at r = Some (w, f, t, rest)" using Some q by simp
        show ?thesis
          using replaceEdges_some [OF 1, of m] replaceEdges_some [OF 2, of m] s0 True
          by (simp add: edge_replacement_append)
      qed
    next
      case False
      note A = edge_stmt_at_append [OF e False fr]
      show ?thesis
      proof (cases "edge_stmt_at s")
        case None
        then have n: "edge_stmt_at (c # cs @ r) = None" using A s by simp
        have n0: "edge_stmt_at (c # cs) = None" using None s by simp
        show ?thesis using replaceEdges_none [OF n] replaceEdges_none [OF n0] by (intro copy)
      next
        case (Some q)
        obtain w f t rest where q: "q = (w, f, t, rest)" by (cases q)
        have 0: "edge_stmt_at s = Some (w, f, t, rest)" using Some q by simp
        have 1: "edge_stmt_at (s @ r) = Some (w, f, t, rest @ r)" using A 0 by simp
        have er: "ends_lt rest" using A 0 by blast
        have lr: "length rest < length s" using 0 by (rule edge_stmt_at_length)
        have "replaceEdges m False (rest @ r) = replaceEdges m False rest @ replaceEdges m True r"
          using IH lr er fr by simp
        then show ?thesis
          using replaceEdges_some [OF 1, of m] replaceEdges_some [OF 0, of m] True by simp
      qed
    qed
  qed
qed

lemma replaceEdges_ends_lt: "ends_lt s \<Longrightarrow> ends_lt (replaceEdges m b s)"
proof (induction s arbitrary: b rule: length_induct)
  case (1 s)
  note IH = "1.IH" and e = "1.prems"
  obtain c cs where s: "s = c # cs" using e by (cases s) (auto simp: ends_lt_def)
  have copy: "ends_lt (replaceEdges m b s)"
    if 2: "replaceEdges m b (c # cs) = c # replaceEdges m (is_lt c) cs"
  proof (cases "cs = []")
    case True
    then have "is_lt c" using e s by (simp add: ends_lt_def)
    then show ?thesis using 2 True s by (simp add: replaceEdges_Nil ends_lt_def)
  next
    case False
    then have "ends_lt cs" using e s by (simp add: ends_lt_def)
    then have "ends_lt (replaceEdges m (is_lt c) cs)" using IH s by simp
    then show ?thesis using 2 s by (simp add: ends_lt_def)
  qed
  show ?case
  proof (cases "all_space s")
    case True
    then show ?thesis using e by (simp add: replaceEdges_all_space)
  next
    case False
    have fr: "edge_fresh []" by (simp add: edge_fresh_def)
    note A = edge_stmt_at_append [OF e False fr]
    show ?thesis
    proof (cases b)
      case False
      show ?thesis using False by (intro copy) (simp add: replaceEdges_False)
    next
      case True
      show ?thesis
      proof (cases "edge_stmt_at s")
        case None
        then have "edge_stmt_at (c # cs) = None" using s by simp
        then show ?thesis by (intro copy replaceEdges_none)
      next
        case (Some q)
        obtain w f t rest where q: "q = (w, f, t, rest)" by (cases q)
        have 0: "edge_stmt_at s = Some (w, f, t, rest)" using Some q by simp
        have er: "ends_lt rest" using A 0 by blast
        have lr: "length rest < length s" using 0 by (rule edge_stmt_at_length)
        have "ends_lt (replaceEdges m False rest)" using IH lr er by simp
        then show ?thesis using replaceEdges_some [OF 0, of m] True by (simp add: ends_lt_def)
      qed
    qed
  qed
qed

lemma removeBlank_ends_or_Nil: "line_start s \<Longrightarrow> removeBlank True (s @ r) = removeBlank True s @ removeBlank True r"
  by (auto simp: line_start_def removeBlank_Nil removeBlank_append)

text \<open>
  The rewriting works piece by piece: a text cut at a line start is rewritten part by
  part, when the second part cannot complete an edge statement begun in the first.
\<close>

lemma rewriteDot_append:
  assumes "line_start pre" "edge_fresh r"
  shows "rewriteDot m (pre @ r) = rewriteDot m pre @ rewriteDot m r"
proof (cases "pre = []")
  case True
  then show ?thesis by (simp add: rewriteDot_def replaceEdges_Nil removeComments_Nil removeBlank_Nil)
next
  case False
  then have e: "ends_lt pre" using assms(1) by (simp add: line_start_def)
  have 1: "replaceEdges m True (pre @ r) = replaceEdges m True pre @ replaceEdges m True r"
    using e assms(2) by (rule replaceEdges_append)
  have e1: "ends_lt (replaceEdges m True pre)" using e by (rule replaceEdges_ends_lt)
  have 2: "removeComments True (replaceEdges m True pre @ replaceEdges m True r)
      = removeComments True (replaceEdges m True pre) @ removeComments True (replaceEdges m True r)"
    using e1 by (rule removeComments_append)
  have e2: "ends_lt (removeComments True (replaceEdges m True pre))"
    using e1 by (rule removeComments_ends_lt)
  have 3: "removeBlank True (removeComments True (replaceEdges m True pre)
              @ removeComments True (replaceEdges m True r))
      = removeBlank True (removeComments True (replaceEdges m True pre))
        @ removeBlank True (removeComments True (replaceEdges m True r))"
    using e2 by (rule removeBlank_append)
  show ?thesis unfolding rewriteDot_def 1 2 3 ..
qed

subsection \<open>One line in a text\<close>

lemma edge_fresh_edge_line:
  assumes "all_space ws" "all_digits x"
  shows "edge_fresh (ws @ x @ '' -> '' @ r)"
proof -
  obtain x0 x' where x: "x = x0 # x'" using assms(2) by (cases x) (auto simp: all_digits_def)
  have xd: "\<forall>c \<in> set x. is_digit c" using assms(2) by (simp add: all_digits_def)
  have x0: "\<not> is_space x0" "x0 \<noteq> CHR ''-''" using xd x char_facts2(1) by (auto simp: is_digit_def)
  have 1: "dropWhile is_space (ws @ x @ '' -> '' @ r) = x @ '' -> '' @ r"
    using assms(1) x0 x by (simp add: all_space_def dropWhile_append3)
  have 2: "dropWhile is_digit (x @ '' -> '' @ r) = '' -> '' @ r"
    using xd char_facts2(3) by (simp add: dropWhile_append3)
  have 3: "strip_prefix ''->'' (x @ '' -> '' @ r) = None" using x x0 by simp
  show ?thesis unfolding edge_fresh_def 1 2 using 3 by simp
qed

lemma edge_fresh_comment: "edge_fresh (''//'' @ r)"
  using char_facts2(6,7) by (simp add: edge_fresh_def)

lemma no_lt_strip_comment: "no_lt u \<Longrightarrow> no_lt (strip_comment u)"
  by (simp add: strip_comment_def)

text \<open>One line at the start of a text.\<close>

lemma rewriteDot_one_line:
  assumes "wf_line l" "no_lt (edges_done m l)"
  shows "rewriteDot m (render l @ NL # post)
           = (if kept l then out_line m l @ NL # rewriteDot m post else rewriteDot m post)"
    and "rewriteDot m (render l) = out_line m l"
proof -
  have o: "strip_comment (edges_done m l) = out_line m l"
    using assms(1) by (rule strip_comment_edges_done)
  have n: "no_lt (out_line m l)" using no_lt_strip_comment [OF assms(2)] o by simp
  have 1: "replaceEdges m True (render l @ NL # post) = edges_done m l @ NL # replaceEdges m True post"
    using assms(1) by (rule replaceEdges_line(1))
  have 2: "removeComments True (edges_done m l @ NL # replaceEdges m True post)
      = out_line m l @ NL # removeComments True (replaceEdges m True post)"
    using removeComments_line [OF assms(2)] o by simp
  have 3: "removeBlank True (out_line m l @ NL # removeComments True (replaceEdges m True post))
      = (if kept l then out_line m l @ NL # removeBlank True (removeComments True (replaceEdges m True post))
         else removeBlank True (removeComments True (replaceEdges m True post)))"
  proof (cases "kept l")
    case True
    then have "\<not> all_space (out_line m l)" using out_line_blank [OF assms(1), of m] by simp
    then show ?thesis using True removeBlank_nonblank_line [OF n] by simp
  next
    case False
    then have "all_space (out_line m l)" using out_line_blank [OF assms(1), of m] by simp
    then show ?thesis using False removeBlank_blank_line by simp
  qed
  show "rewriteDot m (render l @ NL # post)
           = (if kept l then out_line m l @ NL # rewriteDot m post else rewriteDot m post)"
    unfolding rewriteDot_def 1 2 3 ..
  have 4: "replaceEdges m True (render l) = edges_done m l" using assms(1) by (rule replaceEdges_line(2))
  have 5: "removeComments True (edges_done m l) = out_line m l"
    using removeComments_line_end [OF assms(2)] o by simp
  have 6: "removeBlank True (out_line m l) = out_line m l" using n by (rule removeBlank_end)
  show "rewriteDot m (render l) = out_line m l" unfolding rewriteDot_def 4 5 6 ..
qed

text \<open>One line at any line start of a text.\<close>

lemma rewriteDot_line_in_text:
  assumes "line_start pre" "wf_line l" "no_lt (edges_done m l)"
  shows "edge_fresh (render l @ NL # post) \<Longrightarrow>
         rewriteDot m (pre @ render l @ NL # post)
           = rewriteDot m pre @ (if kept l then out_line m l @ NL # rewriteDot m post else rewriteDot m post)"
    and "edge_fresh (render l) \<Longrightarrow> rewriteDot m (pre @ render l) = rewriteDot m pre @ out_line m l"
  using rewriteDot_append [OF assms(1), of _ m] rewriteDot_one_line [OF assms(2,3)] by simp_all

lemma rewriteDot_edge_in_text:
  assumes "line_start pre" "lt_free_labels m" "all_space ws" "no_lt ws" "all_digits x" "all_digits y"
    "no_lt rest"
  shows "rewriteDot m (pre @ ws @ x @ '' -> '' @ y @ '';'' @ rest @ NL # post)
           = rewriteDot m pre @ ws @ [DQ] @ label_or_id m x @ [DQ] @ '' -> '' @ [DQ] @ label_or_id m y
             @ [DQ] @ '';'' @ rest @ NL # rewriteDot m post"
    and "rewriteDot m (pre @ ws @ x @ '' -> '' @ y @ '';'' @ rest)
           = rewriteDot m pre @ ws @ [DQ] @ label_or_id m x @ [DQ] @ '' -> '' @ [DQ] @ label_or_id m y
             @ [DQ] @ '';'' @ rest"
proof -
  let ?l = "EdgeLine ws x y rest"
  have w: "wf_line ?l" using assms by simp
  have n: "no_lt (edges_done m ?l)" using assms(2) w by (rule edges_done_no_lt)
  have f1: "edge_fresh (render ?l @ NL # post)"
    using edge_fresh_edge_line [OF assms(3,5), of "y @ '';'' @ rest @ NL # post"] by simp
  have f2: "edge_fresh (render ?l)"
    using edge_fresh_edge_line [OF assms(3,5), of "y @ '';'' @ rest"] by simp
  show "rewriteDot m (pre @ ws @ x @ '' -> '' @ y @ '';'' @ rest @ NL # post)
           = rewriteDot m pre @ ws @ [DQ] @ label_or_id m x @ [DQ] @ '' -> '' @ [DQ] @ label_or_id m y
             @ [DQ] @ '';'' @ rest @ NL # rewriteDot m post"
    using rewriteDot_line_in_text(1) [OF assms(1) w n f1] by (simp add: edge_replacement_def)
  show "rewriteDot m (pre @ ws @ x @ '' -> '' @ y @ '';'' @ rest)
           = rewriteDot m pre @ ws @ [DQ] @ label_or_id m x @ [DQ] @ '' -> '' @ [DQ] @ label_or_id m y
             @ [DQ] @ '';'' @ rest"
    using rewriteDot_line_in_text(2) [OF assms(1) w n f2] by (simp add: edge_replacement_def)
qed

lemma rewriteDot_comment_in_text:
  assumes "line_start pre" "no_lt ct"
  shows "rewriteDot m (pre @ ''//'' @ ct @ NL # post) = rewriteDot m pre @ rewriteDot m post"
    and "rewriteDot m (pre @ ''//'' @ ct) = rewriteDot m pre"
proof -
  let ?l = "CommentLine ct"
  have w: "wf_line ?l" using assms by simp
  have n: "no_lt (edges_done m ?l)" using assms(2) by (simp add: no_lt_literals)
  have f1: "edge_fresh (render ?l @ NL # post)" using edge_fresh_comment [of "ct @ NL # post"] by simp
  have f2: "edge_fresh (render ?l)" using edge_fresh_comment [of ct] by simp
  show "rewriteDot m (pre @ ''//'' @ ct @ NL # post) = rewriteDot m pre @ rewriteDot m post"
    using rewriteDot_line_in_text(1) [OF assms(1) w n f1] by simp
  show "rewriteDot m (pre @ ''//'' @ ct) = rewriteDot m pre"
    using rewriteDot_line_in_text(2) [OF assms(1) w n f2] by simp
qed

subsection \<open>The claim\<close>

text \<open>
  Claim C3, as stated: the label of an id is its entry in the map, and the id itself only
  when the map has no entry. The code writes \<open>idToLabel.get(from) || from\<close>, which falls
  back on the id also when the entry is the empty string. The comment \<open>// 7:\<close> gives the
  id 7 the empty label; the edge \<open>7 -> 9;\<close> becomes \<open>"7" -> "9";\<close>, where the claim has
  \<open>"" -> "9";\<close>.
\<close>

theorem convertDotText_empty_label:
  "extractLabels posix_basename ''// 7:\<newline>7 -> 9;'' ''7'' = Some []
   \<and> extractLabels posix_basename ''// 7:\<newline>7 -> 9;'' ''9'' = None
   \<and> convertDotText posix_basename ''// 7:\<newline>7 -> 9;''
       = [DQ] @ ''7'' @ [DQ] @ '' -> '' @ [DQ] @ ''9'' @ [DQ] @ '';''
   \<and> spec_edge_line (extractLabels posix_basename ''// 7:\<newline>7 -> 9;'') [] ''7'' ''9''
       = [DQ] @ [DQ] @ '' -> '' @ [DQ] @ ''9'' @ [DQ] @ '';''
   \<and> convertDotText posix_basename ''// 7:\<newline>7 -> 9;''
       \<noteq> spec_edge_line (extractLabels posix_basename ''// 7:\<newline>7 -> 9;'') [] ''7'' ''9''"
  by code_simp

text \<open>
  Claim C3, amended. For every input text and every id-to-label map whose labels hold no
  line terminator, the rewriting goes line by line.

  \<^item> A text cut at a line start (at its beginning or after a line terminator) is rewritten
    part by part, when the second part cannot complete an edge statement begun in the
    first: after its white space it has no arrow, and no number followed by a semicolon.
  \<^item> Wherever a line \<open><ws><digits> -> <digits>;<rest>\<close> stands at a line start, the output has
    \<open><ws>"<label(from)>" -> "<label(to)>";<rest>\<close> in its place, with the white space as it
    was, between the rewritten text before it and the rewritten text after it.
  \<^item> Wherever a line that begins with \<open>//\<close> stands at a line start, it is deleted together
    with its line feed.
  \<^item> A line of white space is deleted with its line feed, and another line (its first
    character after white space is not a digit, and no \<open>//\<close> stands there) is kept as it
    is, when the line and what follows it cannot complete an edge statement begun before.
  \<^item> So for a text made of such lines, each ended by a line feed but possibly the last,
    the output is the text of the rewritten edge lines and the unchanged other lines in
    their order; no line of it has \<open>//\<close> as its first characters after white space. The
    same holds of the whole conversion, with the map read from the comments of the text,
    when the basename of a path has no line terminator.
  \<^item> \<open>label(x)\<close> is the entry of the map for \<open>x\<close>, and \<open>x\<close> itself when there is none or when
    it is the empty string.
\<close>

theorem convertDotText_line_by_line:
  "(line_start pre \<and> edge_fresh r \<longrightarrow>
      rewriteDot idToLabel (pre @ r) = rewriteDot idToLabel pre @ rewriteDot idToLabel r)
   \<and> (line_start pre \<and> lt_free_labels idToLabel \<and> all_space ws \<and> no_lt ws \<and> all_digits x
        \<and> all_digits y \<and> no_lt rest \<longrightarrow>
      rewriteDot idToLabel (pre @ ws @ x @ '' -> '' @ y @ '';'' @ rest @ NL # post)
        = rewriteDot idToLabel pre
          @ ws @ [DQ] @ label_or_id idToLabel x @ [DQ] @ '' -> '' @ [DQ] @ label_or_id idToLabel y
          @ [DQ] @ '';'' @ rest @ NL # rewriteDot idToLabel post
      \<and> rewriteDot idToLabel (pre @ ws @ x @ '' -> '' @ y @ '';'' @ rest)
        = rewriteDot idToLabel pre
          @ ws @ [DQ] @ label_or_id idToLabel x @ [DQ] @ '' -> '' @ [DQ] @ label_or_id idToLabel y
          @ [DQ] @ '';'' @ rest)
   \<and> (line_start pre \<and> no_lt ct \<longrightarrow>
      rewriteDot idToLabel (pre @ ''//'' @ ct @ NL # post)
        = rewriteDot idToLabel pre @ rewriteDot idToLabel post
      \<and> rewriteDot idToLabel (pre @ ''//'' @ ct) = rewriteDot idToLabel pre)
   \<and> (line_start pre \<and> wf_line l \<and> lt_free_labels idToLabel \<and> edge_fresh (render l @ NL # post) \<longrightarrow>
      rewriteDot idToLabel (pre @ render l @ NL # post)
        = rewriteDot idToLabel pre
          @ (if kept l then out_line idToLabel l @ NL # rewriteDot idToLabel post
             else rewriteDot idToLabel post))
   \<and> ((\<forall>k \<in> set ls. wf_line k) \<and> wf_line fin \<and> lt_free_labels idToLabel \<longrightarrow>
      rewriteDot idToLabel (lines_text (map render ls) (render fin))
        = lines_text (map (out_line idToLabel) (filter kept ls)) (out_line idToLabel fin)
      \<and> comment_lines (rewriteDot idToLabel (lines_text (map render ls) (render fin))) = [])
   \<and> ((\<forall>k \<in> set ls. wf_line k) \<and> wf_line fin \<and> keeps_lt_free bn \<longrightarrow>
      convertDotText bn (lines_text (map render ls) (render fin))
        = lines_text
            (map (out_line (extractLabels bn (lines_text (map render ls) (render fin))))
               (filter kept ls))
            (out_line (extractLabels bn (lines_text (map render ls) (render fin))) fin))
   \<and> label_or_id idToLabel x
        = (case idToLabel x of None \<Rightarrow> x | Some lab \<Rightarrow> if lab = [] then x else lab)"
proof -
  have 1: "rewriteDot idToLabel (pre @ r) = rewriteDot idToLabel pre @ rewriteDot idToLabel r"
    if "line_start pre \<and> edge_fresh r"
    using that rewriteDot_append by blast
  have 2: "rewriteDot idToLabel (pre @ ws @ x @ '' -> '' @ y @ '';'' @ rest @ NL # post)
        = rewriteDot idToLabel pre
          @ ws @ [DQ] @ label_or_id idToLabel x @ [DQ] @ '' -> '' @ [DQ] @ label_or_id idToLabel y
          @ [DQ] @ '';'' @ rest @ NL # rewriteDot idToLabel post
      \<and> rewriteDot idToLabel (pre @ ws @ x @ '' -> '' @ y @ '';'' @ rest)
        = rewriteDot idToLabel pre
          @ ws @ [DQ] @ label_or_id idToLabel x @ [DQ] @ '' -> '' @ [DQ] @ label_or_id idToLabel y
          @ [DQ] @ '';'' @ rest"
    if h: "line_start pre \<and> lt_free_labels idToLabel \<and> all_space ws \<and> no_lt ws \<and> all_digits x
        \<and> all_digits y \<and> no_lt rest"
  proof -
    from h have a: "line_start pre" "lt_free_labels idToLabel" "all_space ws" "no_lt ws"
      "all_digits x" "all_digits y" "no_lt rest" by simp_all
    show ?thesis
      using rewriteDot_edge_in_text(1) [OF a, of post] rewriteDot_edge_in_text(2) [OF a] by simp
  qed
  have 3: "rewriteDot idToLabel (pre @ ''//'' @ ct @ NL # post)
        = rewriteDot idToLabel pre @ rewriteDot idToLabel post
      \<and> rewriteDot idToLabel (pre @ ''//'' @ ct) = rewriteDot idToLabel pre"
    if h: "line_start pre \<and> no_lt ct"
  proof -
    from h have a: "line_start pre" "no_lt ct" by simp_all
    show ?thesis
      using rewriteDot_comment_in_text(1) [OF a, of idToLabel post]
        rewriteDot_comment_in_text(2) [OF a, of idToLabel] by simp
  qed
  have 4: "rewriteDot idToLabel (pre @ render l @ NL # post)
        = rewriteDot idToLabel pre
          @ (if kept l then out_line idToLabel l @ NL # rewriteDot idToLabel post
             else rewriteDot idToLabel post)"
    if h: "line_start pre \<and> wf_line l \<and> lt_free_labels idToLabel \<and> edge_fresh (render l @ NL # post)"
  proof -
    from h have a: "line_start pre" "wf_line l" and b: "lt_free_labels idToLabel"
      and c: "edge_fresh (render l @ NL # post)" by simp_all
    have n: "no_lt (edges_done idToLabel l)" using b a(2) by (rule edges_done_no_lt)
    show ?thesis using a n c by (rule rewriteDot_line_in_text(1))
  qed
  have 5: "rewriteDot idToLabel (lines_text (map render ls) (render fin))
        = lines_text (map (out_line idToLabel) (filter kept ls)) (out_line idToLabel fin)
      \<and> comment_lines (rewriteDot idToLabel (lines_text (map render ls) (render fin))) = []"
    if h: "(\<forall>k \<in> set ls. wf_line k) \<and> wf_line fin \<and> lt_free_labels idToLabel"
  proof -
    from h have a: "\<forall>k \<in> set ls. wf_line k" "wf_line fin" "lt_free_labels idToLabel" by simp_all
    have e: "rewriteDot idToLabel (lines_text (map render ls) (render fin))
        = lines_text (map (out_line idToLabel) (filter kept ls)) (out_line idToLabel fin)"
      using a by (rule rewriteDot_lines)
    show ?thesis unfolding e using out_lines_no_comment [OF a] by simp
  qed
  have 6: "convertDotText bn (lines_text (map render ls) (render fin))
        = lines_text
            (map (out_line (extractLabels bn (lines_text (map render ls) (render fin))))
               (filter kept ls))
            (out_line (extractLabels bn (lines_text (map render ls) (render fin))) fin)"
    if h: "(\<forall>k \<in> set ls. wf_line k) \<and> wf_line fin \<and> keeps_lt_free bn"
  proof -
    from h have a: "\<forall>k \<in> set ls. wf_line k" "wf_line fin" "keeps_lt_free bn" by simp_all
    show ?thesis using a by (rule convertDotText_lines)
  qed
  have 7: "label_or_id idToLabel x
        = (case idToLabel x of None \<Rightarrow> x | Some lab \<Rightarrow> if lab = [] then x else lab)"
    by (simp add: label_or_id_def)
  show ?thesis
    by (rule conjI [OF impI conjI [OF impI conjI [OF impI conjI [OF impI conjI [OF impI
          conjI [OF impI 7]]]]]])
       (erule 1 2 3 4 5 6)+
qed

text \<open>
  The example of the specification inside a graph: the comment gives 7 the label
  \<open>main.py\<close>, 9 has none; the comment line and the line of white space are gone and the
  indentation of the edge is kept. An edge line after a line that leaves an edge
  statement open, with a remark after its semicolon. A comment line after a carriage
  return.
\<close>

theorem convertDotText_line_by_line_witness:
  "convertDotText posix_basename
     ''// 7:/a/b/main.py\<newline>digraph {\<newline>  7 -> 9;\<newline> \<newline>}\<newline>''
   = ''digraph {\<newline>  '' @ [DQ] @ ''main.py'' @ [DQ] @ '' -> '' @ [DQ] @ ''9'' @ [DQ] @ '';\<newline>}\<newline>''
   \<and> comment_lines (convertDotText posix_basename
     ''// 7:/a/b/main.py\<newline>digraph {\<newline>  7 -> 9;\<newline> \<newline>}\<newline>'') = []
   \<and> rewriteDot [''7'' \<mapsto> ''main.py''] (''5 ->\<newline>'' @ ''  7 -> 9; # dep'' @ NL # ''}'')
       = ''5 ->\<newline>'' @ ''  '' @ [DQ] @ ''main.py'' @ [DQ] @ '' -> '' @ [DQ] @ ''9'' @ [DQ] @ ''; # dep''
         @ NL # ''}''
   \<and> rewriteDot [''7'' \<mapsto> ''main.py''] (''digraph {'' @ [CR] @ ''// 7:/a/b/main.py'' @ NL # ''}'')
       = ''digraph {'' @ [CR] @ ''}''"
proof -
  let ?ls = "[CommentLine '' 7:/a/b/main.py'', OtherLine ''digraph {'',
              EdgeLine ''  '' ''7'' ''9'' [], BlankLine '' '', OtherLine ''}'']"
  let ?fin = "BlankLine []"
  let ?T = "''// 7:/a/b/main.py\<newline>digraph {\<newline>  7 -> 9;\<newline> \<newline>}\<newline>''"
  let ?m = "[''7'' \<mapsto> ''main.py'']"
  have lf: "lt_free_labels ?m"
    by (simp add: lt_free_labels_def is_lt_def NL_def CR_def)
  have w: "\<forall>k \<in> set ?ls. wf_line k" by code_simp
  have f: "wf_line ?fin" by simp
  have t: "lines_text (map render ?ls) (render ?fin) = ?T" by code_simp
  have h6: "(\<forall>k \<in> set ?ls. wf_line k) \<and> wf_line ?fin \<and> keeps_lt_free posix_basename"
    using w f posix_basename_lt_free by simp
  note T6 = convertDotText_line_by_line [where ls = ?ls and fin = ?fin and bn = posix_basename,
      THEN conjunct2, THEN conjunct2, THEN conjunct2, THEN conjunct2, THEN conjunct2,
      THEN conjunct1, THEN mp, OF h6]
  have r6: "lines_text
          (map (out_line (extractLabels posix_basename (lines_text (map render ?ls) (render ?fin))))
             (filter kept ?ls))
          (out_line (extractLabels posix_basename (lines_text (map render ?ls) (render ?fin))) ?fin)
      = ''digraph {\<newline>  '' @ [DQ] @ ''main.py'' @ [DQ] @ '' -> '' @ [DQ] @ ''9'' @ [DQ] @ '';\<newline>}\<newline>''"
    by code_simp
  have 1: "convertDotText posix_basename ?T
      = ''digraph {\<newline>  '' @ [DQ] @ ''main.py'' @ [DQ] @ '' -> '' @ [DQ] @ ''9'' @ [DQ] @ '';\<newline>}\<newline>''"
    using T6 [unfolded r6, unfolded t] .
  have 2: "comment_lines (''digraph {\<newline>  '' @ [DQ] @ ''main.py'' @ [DQ] @ '' -> '' @ [DQ] @ ''9'' @ [DQ] @ '';\<newline>}\<newline>'') = []"
    by code_simp
  have h2: "line_start ''5 ->\<newline>'' \<and> lt_free_labels ?m \<and> all_space ''  '' \<and> no_lt ''  ''
      \<and> all_digits ''7'' \<and> all_digits ''9'' \<and> no_lt '' # dep''"
    using lf by (simp add: line_start_def ends_lt_def is_lt_def is_space_def is_digit_def
        all_digits_def NL_def CR_def)
  note T2 = convertDotText_line_by_line [where pre = "''5 ->\<newline>''" and idToLabel = ?m
      and ws = "''  ''" and x = "''7''" and y = "''9''" and rest = "'' # dep''" and post = "''}''",
      THEN conjunct2, THEN conjunct1, THEN mp, OF h2, THEN conjunct1]
  have e1: "rewriteDot ?m ''5 ->\<newline>'' = ''5 ->\<newline>''" by code_simp
  have e2: "rewriteDot ?m ''}'' = ''}''" by code_simp
  have e3: "label_or_id ?m ''7'' = ''main.py''" "label_or_id ?m ''9'' = ''9''"
    by (simp_all add: label_or_id_def)
  have 3: "rewriteDot ?m (''5 ->\<newline>'' @ ''  7 -> 9; # dep'' @ NL # ''}'')
       = ''5 ->\<newline>'' @ ''  '' @ [DQ] @ ''main.py'' @ [DQ] @ '' -> '' @ [DQ] @ ''9'' @ [DQ] @ ''; # dep''
         @ NL # ''}''"
    using T2 unfolding e1 e2 e3 by simp
  have h3: "line_start (''digraph {'' @ [CR]) \<and> no_lt '' 7:/a/b/main.py''"
    by (simp add: line_start_def ends_lt_def is_lt_def NL_def CR_def)
  note T3 = convertDotText_line_by_line [where pre = "''digraph {'' @ [CR]" and idToLabel = ?m
      and ct = "'' 7:/a/b/main.py''" and post = "''}''",
      THEN conjunct2, THEN conjunct2, THEN conjunct1, THEN mp, OF h3, THEN conjunct1]
  have e4: "rewriteDot ?m (''digraph {'' @ [CR]) = ''digraph {'' @ [CR]" by code_simp
  have 4: "rewriteDot ?m (''digraph {'' @ [CR] @ ''// 7:/a/b/main.py'' @ NL # ''}'')
       = ''digraph {'' @ [CR] @ ''}''"
    using T3 unfolding e4 e2 by simp
  show ?thesis unfolding 1 using 2 3 4 by simp
qed

end
